theory Spec2Isabelle
  imports Main "HOL-Library.Word"
begin

section \<open>The row of disks (class \<open>disk_state\<close> of disks.hpp)\<close>

text \<open>
  A disk is light or dark. The class \<open>disk_state\<close> has one private field, the vector
  \<open>_colors\<close>; a row is modelled as that vector, a list of colours.
\<close>

datatype disk_color = DISK_LIGHT | DISK_DARK

type_synonym disk_state = "disk_color list"

text \<open>
  Every failure of the header is an \<open>assert\<close>, taken here as compiled in. Each assertion
  that can fail is a constructor of \<open>error\<close>, and a function that may abort returns
  \<open>error + 'a\<close>. \<open>Undefined_read\<close> stands for the read past the end of a vector that
  \<open>std::equal\<close> performs when its second range is the shorter one.
\<close>

datatype error =
    Assert_dark_count
  | Assert_is_index
  | Assert_is_alternating
  | Undefined_read

text \<open>
  Sizes and indices are \<open>size_t\<close> (64 bits). The size of a vector and every index below it
  fit that type, so they are natural numbers here; the one operation on them that can leave
  the range is subtraction, which wraps around. Running out of memory is not modelled: a
  vector of any size that fits \<open>size_t\<close> can be built.
\<close>

definition size_sub :: "nat \<Rightarrow> nat \<Rightarrow> nat" where
  "size_sub a b = (if b \<le> a then a - b else a + 2 ^ 64 - b)"

definition total_count :: "disk_state \<Rightarrow> nat" where
  "total_count cs = length cs"

definition dark_count :: "disk_state \<Rightarrow> nat" where
  "dark_count cs = total_count cs div 2"

definition light_count :: "disk_state \<Rightarrow> nat" where
  "light_count cs = dark_count cs"

definition is_index :: "disk_state \<Rightarrow> nat \<Rightarrow> bool" where
  "is_index cs i = (i < total_count cs)"

definition get :: "disk_state \<Rightarrow> nat \<Rightarrow> error + disk_color" where
  "get cs index = (if is_index cs index then Inr (cs ! index) else Inl Assert_is_index)"

text \<open>\<open>swap\<close> checks the left index, then the right one, then exchanges the two disks.\<close>

definition swap :: "disk_state \<Rightarrow> nat \<Rightarrow> error + disk_state" where
  "swap cs left_index =
     (if \<not> is_index cs left_index then Inl Assert_is_index
      else let right_index = left_index + 1 in
        if \<not> is_index cs right_index then Inl Assert_is_index
        else Inr (cs[left_index := cs ! right_index, right_index := cs ! left_index]))"

subsection \<open>The constructor\<close>

text \<open>
  The constructor's loop \<open>for (i = 1; i < _colors.size(); i += 2) _colors[i] = DISK_DARK\<close>.
\<close>

function ctor_loop :: "disk_state \<Rightarrow> nat \<Rightarrow> disk_state" where
  "ctor_loop cs i = (if i < length cs then ctor_loop (cs[i := DISK_DARK]) (i + 2) else cs)"
  by pat_completeness auto
termination
  by (relation "measure (\<lambda>(cs, i). length cs - i)") auto

declare ctor_loop.simps [simp del]

text \<open>
  The argument \<open>light_count\<close> is a \<open>size_t\<close>, and \<open>light_count * 2\<close> is computed in that
  type: it wraps around from \<open>2 ^ 63\<close> on.
\<close>

definition disk_state_ctor :: "64 word \<Rightarrow> error + disk_state" where
  "disk_state_ctor n =
     (let cs = replicate (unat (n * 2)) DISK_LIGHT in
      if dark_count cs > 0 then Inr (ctor_loop cs 1) else Inl Assert_dark_count)"

subsection \<open>Equality\<close>

text \<open>
  \<open>operator==\<close> is \<open>std::equal(_colors.begin(), _colors.end(), rhs._colors.begin())\<close>:
  the three-iterator form, which walks the left range and reads the right one at the same
  offsets, without looking at the right range's length. It stops at the first mismatch.
\<close>

fun std_equal :: "disk_color list \<Rightarrow> disk_color list \<Rightarrow> error + bool" where
  "std_equal [] ys = Inr True"
| "std_equal (x # xs) [] = Inl Undefined_read"
| "std_equal (x # xs) (y # ys) = (if x = y then std_equal xs ys else Inr False)"

definition operator_eq :: "disk_state \<Rightarrow> disk_state \<Rightarrow> error + bool" where
  "operator_eq lhs rhs = std_equal lhs rhs"

subsection \<open>Rendering\<close>

fun to_string_loop :: "disk_color list \<Rightarrow> bool \<Rightarrow> string \<Rightarrow> string" where
  "to_string_loop [] first ss = ss"
| "to_string_loop (color # rest) first ss =
     (let ss1 = (if \<not> first then ss @ '' '' else ss);
          ss2 = (if color = DISK_LIGHT then ss1 @ ''L'' else ss1 @ ''D'')
      in to_string_loop rest False ss2)"

definition to_string :: "disk_state \<Rightarrow> string" where
  "to_string cs = to_string_loop cs True ''''"

subsection \<open>The two format checks\<close>

text \<open>
  \<open>is_alternating\<close>: the bound \<open>size - 1\<close> is a \<open>size_t\<close> subtraction; \<open>||\<close> evaluates
  \<open>get(i + 1)\<close> only when \<open>get(i)\<close> is light.
\<close>

function is_alternating_loop :: "disk_state \<Rightarrow> nat \<Rightarrow> nat \<Rightarrow> error + bool" where
  "is_alternating_loop cs sz i =
     (if i < size_sub sz 1 then
        (case get cs i of
           Inl e \<Rightarrow> Inl e
         | Inr a \<Rightarrow>
             if a \<noteq> DISK_LIGHT then Inr False
             else (case get cs (i + 1) of
                     Inl e \<Rightarrow> Inl e
                   | Inr b \<Rightarrow>
                       if b \<noteq> DISK_DARK then Inr False
                       else is_alternating_loop cs sz (i + 2)))
      else Inr True)"
  by pat_completeness auto
termination
  by (relation "measure (\<lambda>(cs, sz, i). size_sub sz 1 - i)") auto

declare is_alternating_loop.simps [simp del]

definition is_alternating :: "disk_state \<Rightarrow> error + bool" where
  "is_alternating cs = is_alternating_loop cs (total_count cs) 0"

function is_sorted_loop :: "disk_state \<Rightarrow> nat \<Rightarrow> nat \<Rightarrow> error + bool" where
  "is_sorted_loop cs lightSize i =
     (if i < lightSize then
        (case get cs i of
           Inl e \<Rightarrow> Inl e
         | Inr a \<Rightarrow>
             if a \<noteq> DISK_LIGHT then Inr False
             else (case get cs (i + lightSize) of
                     Inl e \<Rightarrow> Inl e
                   | Inr b \<Rightarrow>
                       if b \<noteq> DISK_DARK then Inr False
                       else is_sorted_loop cs lightSize (i + 1)))
      else Inr True)"
  by pat_completeness auto
termination
  by (relation "measure (\<lambda>(cs, lightSize, i). lightSize - i)") auto

declare is_sorted_loop.simps [simp del]

definition is_sorted :: "disk_state \<Rightarrow> error + bool" where
  "is_sorted cs = is_sorted_loop cs (light_count cs) 0"

section \<open>The result of a sort (class \<open>sorted_disks\<close>)\<close>

text \<open>
  The counter of the sorters is an \<open>int\<close>, stored in the result as \<open>unsigned\<close>: 32 bits,
  the same bit pattern in both. C++ leaves the overflow of the signed increment undefined;
  here it wraps around at \<open>2 ^ 32\<close>, which is what the usual targets compute.
\<close>

record sorted_disks =
  after :: disk_state
  swap_count :: "32 word"

section \<open>The two sorters\<close>

text \<open>
  Both sorters write to the caller's row through \<open>const_cast\<close>. Their loops pass the pair
  of the caller's row \<open>before\<close> and the counter \<open>swapCount\<close> along, and a sorter returns
  the caller's row as the call leaves it, together with the \<open>sorted_disks\<close> built from it.

  The statement of both forward scans,
  \<open>if (get(j) == DISK_DARK && get(j + 1) == DISK_LIGHT) { swap(j); swapCount++; }\<close>:
  \<open>&&\<close> reads the right disk only when the left one is dark.
\<close>

definition dark_then_light :: "disk_state \<Rightarrow> nat \<Rightarrow> error + bool" where
  "dark_then_light cs j =
     (case get cs j of
        Inl e \<Rightarrow> Inl e
      | Inr a \<Rightarrow>
          if a = DISK_DARK then
            (case get cs (j + 1) of Inl e \<Rightarrow> Inl e | Inr b \<Rightarrow> Inr (b = DISK_LIGHT))
          else Inr False)"

definition forward_step :: "disk_state \<times> 32 word \<Rightarrow> nat \<Rightarrow> error + disk_state \<times> 32 word" where
  "forward_step s j =
     (case s of (before, swapCount) \<Rightarrow>
        (case dark_then_light before j of
           Inl e \<Rightarrow> Inl e
         | Inr hit \<Rightarrow>
             if hit then
               (case swap before j of
                  Inl e \<Rightarrow> Inl e
                | Inr before' \<Rightarrow> Inr (before', swapCount + 1))
             else Inr (before, swapCount)))"

text \<open>
  The statement of the backward scan,
  \<open>if (get(j) == DISK_LIGHT && get(j - 1) == DISK_DARK) { swap(j - 1); swapCount++; }\<close>.
\<close>

definition light_after_dark :: "disk_state \<Rightarrow> nat \<Rightarrow> error + bool" where
  "light_after_dark cs j =
     (case get cs j of
        Inl e \<Rightarrow> Inl e
      | Inr a \<Rightarrow>
          if a = DISK_LIGHT then
            (case get cs (size_sub j 1) of Inl e \<Rightarrow> Inl e | Inr b \<Rightarrow> Inr (b = DISK_DARK))
          else Inr False)"

definition backward_step :: "disk_state \<times> 32 word \<Rightarrow> nat \<Rightarrow> error + disk_state \<times> 32 word" where
  "backward_step s j =
     (case s of (before, swapCount) \<Rightarrow>
        (case light_after_dark before j of
           Inl e \<Rightarrow> Inl e
         | Inr hit \<Rightarrow>
             if hit then
               (case swap before (size_sub j 1) of
                  Inl e \<Rightarrow> Inl e
                | Inr before' \<Rightarrow> Inr (before', swapCount + 1))
             else Inr (before, swapCount)))"

subsection \<open>Left to right\<close>

text \<open>The inner loop \<open>for (j = i + 1; j < totalCount - i - 1; j++)\<close>.\<close>

function ltr_inner ::
  "nat \<Rightarrow> nat \<Rightarrow> nat \<Rightarrow> disk_state \<times> 32 word \<Rightarrow> error + disk_state \<times> 32 word" where
  "ltr_inner totalCount i j s =
     (if j < size_sub (size_sub totalCount i) 1 then
        (case forward_step s j of
           Inl e \<Rightarrow> Inl e
         | Inr s' \<Rightarrow> ltr_inner totalCount i (j + 1) s')
      else Inr s)"
  by pat_completeness auto
termination
  by (relation "measure (\<lambda>(t, i, j, s). size_sub (size_sub t i) 1 - j)") auto

declare ltr_inner.simps [simp del]

text \<open>The outer loop \<open>for (i = 0; i < lightCount; i++)\<close>.\<close>

function ltr_outer ::
  "nat \<Rightarrow> nat \<Rightarrow> nat \<Rightarrow> disk_state \<times> 32 word \<Rightarrow> error + disk_state \<times> 32 word" where
  "ltr_outer totalCount lightCount i s =
     (if i < lightCount then
        (case ltr_inner totalCount i (i + 1) s of
           Inl e \<Rightarrow> Inl e
         | Inr s' \<Rightarrow> ltr_outer totalCount lightCount (i + 1) s')
      else Inr s)"
  by pat_completeness auto
termination
  by (relation "measure (\<lambda>(t, l, i, s). l - i)") auto

declare ltr_outer.simps [simp del]

definition sort_left_to_right :: "disk_state \<Rightarrow> error + disk_state \<times> sorted_disks" where
  "sort_left_to_right before =
     (case is_alternating before of
        Inl e \<Rightarrow> Inl e
      | Inr ok \<Rightarrow>
          if \<not> ok then Inl Assert_is_alternating
          else (case ltr_outer (total_count before) (light_count before) 0 (before, 0) of
                  Inl e \<Rightarrow> Inl e
                | Inr (before', swapCount) \<Rightarrow>
                    Inr (before', \<lparr>after = before', swap_count = swapCount\<rparr>)))"

subsection \<open>Lawnmower\<close>

text \<open>The backward scan \<open>for (j = totalCount - i - 1; j > i; j--)\<close>.\<close>

function lawn_backward ::
  "nat \<Rightarrow> nat \<Rightarrow> disk_state \<times> 32 word \<Rightarrow> error + disk_state \<times> 32 word" where
  "lawn_backward i j s =
     (if j > i then
        (case backward_step s j of
           Inl e \<Rightarrow> Inl e
         | Inr s' \<Rightarrow> lawn_backward i (size_sub j 1) s')
      else Inr s)"
  by pat_completeness auto
termination
  by (relation "measure (\<lambda>(i, j, s). j)") (auto simp: size_sub_def)

declare lawn_backward.simps [simp del]

text \<open>
  The forward loop \<open>for (j = i + 1; j < totalCount - i; j++)\<close>. In the source the brace
  after the \<open>if\<close> statement of this loop closes that statement only, and the brace of the
  loop itself comes after the backward scan: the body of the forward loop is the test and
  swap at \<open>j\<close>, then \<open>i++\<close>, then the whole backward scan. The loop therefore changes
  \<open>i\<close>, which its condition reads at every round, and hands it back to the outer loop.
\<close>

function lawn_forward ::
  "nat \<Rightarrow> nat \<Rightarrow> nat \<Rightarrow> disk_state \<times> 32 word \<Rightarrow> error + nat \<times> disk_state \<times> 32 word" where
  "lawn_forward totalCount i j s =
     (if j < size_sub totalCount i then
        (case forward_step s j of
           Inl e \<Rightarrow> Inl e
         | Inr s1 \<Rightarrow>
             (case lawn_backward (i + 1) (size_sub (size_sub totalCount (i + 1)) 1) s1 of
                Inl e \<Rightarrow> Inl e
              | Inr s2 \<Rightarrow> lawn_forward totalCount (i + 1) (j + 1) s2))
      else Inr (i, s))"
  by pat_completeness auto
termination
  by (relation "measure (\<lambda>(t, i, j, s). t + 2 ^ 64 - i - j)")
     (auto simp: size_sub_def split: if_splits)

declare lawn_forward.simps [simp del]

text \<open>
  The outer loop \<open>for (i = 0; i < lightCount / 2; i++)\<close>, whose \<open>i++\<close> acts on the value
  of \<open>i\<close> that the forward loop leaves.
\<close>

function lawn_outer ::
  "nat \<Rightarrow> nat \<Rightarrow> nat \<Rightarrow> disk_state \<times> 32 word \<Rightarrow> error + disk_state \<times> 32 word" where
  "lawn_outer totalCount lightCount i s =
     (if i < lightCount div 2 then
        (case lawn_forward totalCount i (i + 1) s of
           Inl e \<Rightarrow> Inl e
         | Inr (i', s') \<Rightarrow> lawn_outer totalCount lightCount (i' + 1) s')
      else Inr s)"
  by pat_completeness auto
termination
proof (relation "measure (\<lambda>(t, l, i, s). l div 2 - i)", goal_cases)
  case 1
  show ?case by simp
next
  case (2 totalCount lightCount i s x2 i' s')
  have mono: "\<And>i1 s1. lawn_forward t i0 j s0 = Inr (i1, s1) \<Longrightarrow> i0 \<le> i1" for t i0 j s0
  proof (induction t i0 j s0 rule: lawn_forward.induct)
    case (1 t i0 j s0)
    show ?case
    proof (cases "j < size_sub t i0")
      case False
      with "1.prems" show ?thesis by (simp add: lawn_forward.simps)
    next
      case True
      from "1.prems" True obtain s1' s2 where
        a: "forward_step s0 j = Inr s1'"
        and b: "lawn_backward (i0 + 1) (size_sub (size_sub t (i0 + 1)) 1) s1' = Inr s2"
        and c: "lawn_forward t (i0 + 1) (j + 1) s2 = Inr (i1, s1)"
        by (subst (asm) lawn_forward.simps) (simp split: sum.splits)
      from "1.IH" [OF True a b c] show ?thesis by simp
    qed
  qed
  from 2 mono have "i \<le> i'" by metis
  with 2 show ?case by simp
qed

declare lawn_outer.simps [simp del]

definition sort_lawnmower :: "disk_state \<Rightarrow> error + disk_state \<times> sorted_disks" where
  "sort_lawnmower before =
     (case is_alternating before of
        Inl e \<Rightarrow> Inl e
      | Inr ok \<Rightarrow>
          if \<not> ok then Inl Assert_is_alternating
          else (case lawn_outer (total_count before) (light_count before) 0 (before, 0) of
                  Inl e \<Rightarrow> Inl e
                | Inr (before', swapCount) \<Rightarrow>
                    Inr (before', \<lparr>after = before', swap_count = swapCount\<rparr>)))"

section \<open>The sorters with a record of their swaps\<close>

text \<open>
  To state what the sorters do while they run, each loop is given a third component, the
  list of the swaps performed so far. An entry is written where the source calls
  \<open>swap\<close>: the left index, and the colours found at the left and at the right index just
  before the exchange. Everything else is the loop as above; the lemmas on \<open>erase\<close>
  below show that dropping the list gives back the sorters of the previous section.
\<close>

type_synonym swap_event = "nat \<times> disk_color \<times> disk_color"

definition forward_step_log ::
  "disk_state \<times> 32 word \<times> swap_event list \<Rightarrow> nat \<Rightarrow>
   error + disk_state \<times> 32 word \<times> swap_event list" where
  "forward_step_log s j =
     (case s of (before, swapCount, swaps) \<Rightarrow>
        (case dark_then_light before j of
           Inl e \<Rightarrow> Inl e
         | Inr hit \<Rightarrow>
             if hit then
               (case swap before j of
                  Inl e \<Rightarrow> Inl e
                | Inr before' \<Rightarrow>
                    Inr (before', swapCount + 1, swaps @ [(j, before ! j, before ! (j + 1))]))
             else Inr (before, swapCount, swaps)))"

definition backward_step_log ::
  "disk_state \<times> 32 word \<times> swap_event list \<Rightarrow> nat \<Rightarrow>
   error + disk_state \<times> 32 word \<times> swap_event list" where
  "backward_step_log s j =
     (case s of (before, swapCount, swaps) \<Rightarrow>
        (case light_after_dark before j of
           Inl e \<Rightarrow> Inl e
         | Inr hit \<Rightarrow>
             if hit then
               (case swap before (size_sub j 1) of
                  Inl e \<Rightarrow> Inl e
                | Inr before' \<Rightarrow>
                    Inr (before', swapCount + 1,
                         swaps @ [(size_sub j 1, before ! size_sub j 1,
                                   before ! (size_sub j 1 + 1))]))
             else Inr (before, swapCount, swaps)))"

function ltr_inner_log ::
  "nat \<Rightarrow> nat \<Rightarrow> nat \<Rightarrow> disk_state \<times> 32 word \<times> swap_event list \<Rightarrow>
   error + disk_state \<times> 32 word \<times> swap_event list" where
  "ltr_inner_log totalCount i j s =
     (if j < size_sub (size_sub totalCount i) 1 then
        (case forward_step_log s j of
           Inl e \<Rightarrow> Inl e
         | Inr s' \<Rightarrow> ltr_inner_log totalCount i (j + 1) s')
      else Inr s)"
  by pat_completeness auto
termination
  by (relation "measure (\<lambda>(t, i, j, s). size_sub (size_sub t i) 1 - j)") auto

declare ltr_inner_log.simps [simp del]

function ltr_outer_log ::
  "nat \<Rightarrow> nat \<Rightarrow> nat \<Rightarrow> disk_state \<times> 32 word \<times> swap_event list \<Rightarrow>
   error + disk_state \<times> 32 word \<times> swap_event list" where
  "ltr_outer_log totalCount lightCount i s =
     (if i < lightCount then
        (case ltr_inner_log totalCount i (i + 1) s of
           Inl e \<Rightarrow> Inl e
         | Inr s' \<Rightarrow> ltr_outer_log totalCount lightCount (i + 1) s')
      else Inr s)"
  by pat_completeness auto
termination
  by (relation "measure (\<lambda>(t, l, i, s). l - i)") auto

declare ltr_outer_log.simps [simp del]

definition sort_left_to_right_log ::
  "disk_state \<Rightarrow> error + disk_state \<times> sorted_disks \<times> swap_event list" where
  "sort_left_to_right_log before =
     (case is_alternating before of
        Inl e \<Rightarrow> Inl e
      | Inr ok \<Rightarrow>
          if \<not> ok then Inl Assert_is_alternating
          else (case ltr_outer_log (total_count before) (light_count before) 0 (before, 0, []) of
                  Inl e \<Rightarrow> Inl e
                | Inr (before', swapCount, swaps) \<Rightarrow>
                    Inr (before', \<lparr>after = before', swap_count = swapCount\<rparr>, swaps)))"

function lawn_backward_log ::
  "nat \<Rightarrow> nat \<Rightarrow> disk_state \<times> 32 word \<times> swap_event list \<Rightarrow>
   error + disk_state \<times> 32 word \<times> swap_event list" where
  "lawn_backward_log i j s =
     (if j > i then
        (case backward_step_log s j of
           Inl e \<Rightarrow> Inl e
         | Inr s' \<Rightarrow> lawn_backward_log i (size_sub j 1) s')
      else Inr s)"
  by pat_completeness auto
termination
  by (relation "measure (\<lambda>(i, j, s). j)") (auto simp: size_sub_def)

declare lawn_backward_log.simps [simp del]

function lawn_forward_log ::
  "nat \<Rightarrow> nat \<Rightarrow> nat \<Rightarrow> disk_state \<times> 32 word \<times> swap_event list \<Rightarrow>
   error + nat \<times> disk_state \<times> 32 word \<times> swap_event list" where
  "lawn_forward_log totalCount i j s =
     (if j < size_sub totalCount i then
        (case forward_step_log s j of
           Inl e \<Rightarrow> Inl e
         | Inr s1 \<Rightarrow>
             (case lawn_backward_log (i + 1) (size_sub (size_sub totalCount (i + 1)) 1) s1 of
                Inl e \<Rightarrow> Inl e
              | Inr s2 \<Rightarrow> lawn_forward_log totalCount (i + 1) (j + 1) s2))
      else Inr (i, s))"
  by pat_completeness auto
termination
  by (relation "measure (\<lambda>(t, i, j, s). t + 2 ^ 64 - i - j)")
     (auto simp: size_sub_def split: if_splits)

declare lawn_forward_log.simps [simp del]

function lawn_outer_log ::
  "nat \<Rightarrow> nat \<Rightarrow> nat \<Rightarrow> disk_state \<times> 32 word \<times> swap_event list \<Rightarrow>
   error + disk_state \<times> 32 word \<times> swap_event list" where
  "lawn_outer_log totalCount lightCount i s =
     (if i < lightCount div 2 then
        (case lawn_forward_log totalCount i (i + 1) s of
           Inl e \<Rightarrow> Inl e
         | Inr (i', s') \<Rightarrow> lawn_outer_log totalCount lightCount (i' + 1) s')
      else Inr s)"
  by pat_completeness auto
termination
proof (relation "measure (\<lambda>(t, l, i, s). l div 2 - i)", goal_cases)
  case 1
  show ?case by simp
next
  case (2 totalCount lightCount i s x2 i' s')
  have mono: "\<And>i1 s1. lawn_forward_log t i0 j s0 = Inr (i1, s1) \<Longrightarrow> i0 \<le> i1" for t i0 j s0
  proof (induction t i0 j s0 rule: lawn_forward_log.induct)
    case (1 t i0 j s0)
    show ?case
    proof (cases "j < size_sub t i0")
      case False
      with "1.prems" show ?thesis by (simp add: lawn_forward_log.simps)
    next
      case True
      from "1.prems" True obtain s1' s2 where
        a: "forward_step_log s0 j = Inr s1'"
        and b: "lawn_backward_log (i0 + 1) (size_sub (size_sub t (i0 + 1)) 1) s1' = Inr s2"
        and c: "lawn_forward_log t (i0 + 1) (j + 1) s2 = Inr (i1, s1)"
        by (subst (asm) lawn_forward_log.simps) (simp split: sum.splits)
      from "1.IH" [OF True a b c] show ?thesis by simp
    qed
  qed
  from 2 mono have "i \<le> i'" by metis
  with 2 show ?case by simp
qed

declare lawn_outer_log.simps [simp del]

definition sort_lawnmower_log ::
  "disk_state \<Rightarrow> error + disk_state \<times> sorted_disks \<times> swap_event list" where
  "sort_lawnmower_log before =
     (case is_alternating before of
        Inl e \<Rightarrow> Inl e
      | Inr ok \<Rightarrow>
          if \<not> ok then Inl Assert_is_alternating
          else (case lawn_outer_log (total_count before) (light_count before) 0 (before, 0, []) of
                  Inl e \<Rightarrow> Inl e
                | Inr (before', swapCount, swaps) \<Rightarrow>
                    Inr (before', \<lparr>after = before', swap_count = swapCount\<rparr>, swaps)))"

section \<open>The sorters on the caller's object\<close>

text \<open>
  The parameter \<open>before\<close> of both sorters is a reference: it names the caller's object,
  and the sorters write to that object through \<open>const_cast\<close>. Here the objects of class
  \<open>disk_state\<close> live in a store, \<open>before\<close> is the address of the caller's object, every
  \<open>get\<close> reads the object at that address and every \<open>swap\<close> writes to it. The loops
  are those of the source once more, passing the store and the counter along. At the end
  \<open>sorted_disks(before, swapCount)\<close> copies the object that \<open>before\<close> refers to into the
  result, and the sorter leaves the store as its loops have made it.
\<close>

type_synonym address = nat

type_synonym store = "address \<Rightarrow> disk_state"

definition forward_step_at ::
  "address \<Rightarrow> store \<times> 32 word \<Rightarrow> nat \<Rightarrow> error + store \<times> 32 word" where
  "forward_step_at before s j =
     (case s of (mem, swapCount) \<Rightarrow>
        (case dark_then_light (mem before) j of
           Inl e \<Rightarrow> Inl e
         | Inr hit \<Rightarrow>
             if hit then
               (case swap (mem before) j of
                  Inl e \<Rightarrow> Inl e
                | Inr cs \<Rightarrow> Inr (mem(before := cs), swapCount + 1))
             else Inr (mem, swapCount)))"

definition backward_step_at ::
  "address \<Rightarrow> store \<times> 32 word \<Rightarrow> nat \<Rightarrow> error + store \<times> 32 word" where
  "backward_step_at before s j =
     (case s of (mem, swapCount) \<Rightarrow>
        (case light_after_dark (mem before) j of
           Inl e \<Rightarrow> Inl e
         | Inr hit \<Rightarrow>
             if hit then
               (case swap (mem before) (size_sub j 1) of
                  Inl e \<Rightarrow> Inl e
                | Inr cs \<Rightarrow> Inr (mem(before := cs), swapCount + 1))
             else Inr (mem, swapCount)))"

function ltr_inner_at ::
  "address \<Rightarrow> nat \<Rightarrow> nat \<Rightarrow> nat \<Rightarrow> store \<times> 32 word \<Rightarrow> error + store \<times> 32 word" where
  "ltr_inner_at before totalCount i j s =
     (if j < size_sub (size_sub totalCount i) 1 then
        (case forward_step_at before s j of
           Inl e \<Rightarrow> Inl e
         | Inr s' \<Rightarrow> ltr_inner_at before totalCount i (j + 1) s')
      else Inr s)"
  by pat_completeness auto
termination
  by (relation "measure (\<lambda>(a, t, i, j, s). size_sub (size_sub t i) 1 - j)") auto

declare ltr_inner_at.simps [simp del]

function ltr_outer_at ::
  "address \<Rightarrow> nat \<Rightarrow> nat \<Rightarrow> nat \<Rightarrow> store \<times> 32 word \<Rightarrow> error + store \<times> 32 word" where
  "ltr_outer_at before totalCount lightCount i s =
     (if i < lightCount then
        (case ltr_inner_at before totalCount i (i + 1) s of
           Inl e \<Rightarrow> Inl e
         | Inr s' \<Rightarrow> ltr_outer_at before totalCount lightCount (i + 1) s')
      else Inr s)"
  by pat_completeness auto
termination
  by (relation "measure (\<lambda>(a, t, l, i, s). l - i)") auto

declare ltr_outer_at.simps [simp del]

definition sort_left_to_right_at :: "address \<Rightarrow> store \<Rightarrow> error + store \<times> sorted_disks" where
  "sort_left_to_right_at before mem =
     (case is_alternating (mem before) of
        Inl e \<Rightarrow> Inl e
      | Inr ok \<Rightarrow>
          if \<not> ok then Inl Assert_is_alternating
          else (case ltr_outer_at before (total_count (mem before)) (light_count (mem before)) 0
                       (mem, 0) of
                  Inl e \<Rightarrow> Inl e
                | Inr (mem', swapCount) \<Rightarrow>
                    Inr (mem', \<lparr>after = mem' before, swap_count = swapCount\<rparr>)))"

function lawn_backward_at ::
  "address \<Rightarrow> nat \<Rightarrow> nat \<Rightarrow> store \<times> 32 word \<Rightarrow> error + store \<times> 32 word" where
  "lawn_backward_at before i j s =
     (if j > i then
        (case backward_step_at before s j of
           Inl e \<Rightarrow> Inl e
         | Inr s' \<Rightarrow> lawn_backward_at before i (size_sub j 1) s')
      else Inr s)"
  by pat_completeness auto
termination
  by (relation "measure (\<lambda>(a, i, j, s). j)") (auto simp: size_sub_def)

declare lawn_backward_at.simps [simp del]

function lawn_forward_at ::
  "address \<Rightarrow> nat \<Rightarrow> nat \<Rightarrow> nat \<Rightarrow> store \<times> 32 word \<Rightarrow>
   error + nat \<times> store \<times> 32 word" where
  "lawn_forward_at before totalCount i j s =
     (if j < size_sub totalCount i then
        (case forward_step_at before s j of
           Inl e \<Rightarrow> Inl e
         | Inr s1 \<Rightarrow>
             (case lawn_backward_at before (i + 1)
                     (size_sub (size_sub totalCount (i + 1)) 1) s1 of
                Inl e \<Rightarrow> Inl e
              | Inr s2 \<Rightarrow> lawn_forward_at before totalCount (i + 1) (j + 1) s2))
      else Inr (i, s))"
  by pat_completeness auto
termination
  by (relation "measure (\<lambda>(a, t, i, j, s). t + 2 ^ 64 - i - j)")
     (auto simp: size_sub_def split: if_splits)

declare lawn_forward_at.simps [simp del]

function lawn_outer_at ::
  "address \<Rightarrow> nat \<Rightarrow> nat \<Rightarrow> nat \<Rightarrow> store \<times> 32 word \<Rightarrow> error + store \<times> 32 word" where
  "lawn_outer_at before totalCount lightCount i s =
     (if i < lightCount div 2 then
        (case lawn_forward_at before totalCount i (i + 1) s of
           Inl e \<Rightarrow> Inl e
         | Inr (i', s') \<Rightarrow> lawn_outer_at before totalCount lightCount (i' + 1) s')
      else Inr s)"
  by pat_completeness auto
termination
proof (relation "measure (\<lambda>(a, t, l, i, s). l div 2 - i)", goal_cases)
  case 1
  show ?case by simp
next
  case (2 before totalCount lightCount i s x2 i' s')
  have mono: "\<And>i1 s1. lawn_forward_at a t i0 j s0 = Inr (i1, s1) \<Longrightarrow> i0 \<le> i1" for a t i0 j s0
  proof (induction a t i0 j s0 rule: lawn_forward_at.induct)
    case (1 a t i0 j s0)
    show ?case
    proof (cases "j < size_sub t i0")
      case False
      with "1.prems" show ?thesis by (simp add: lawn_forward_at.simps)
    next
      case True
      from "1.prems" True obtain s1' s2 where
        a: "forward_step_at a s0 j = Inr s1'"
        and b: "lawn_backward_at a (i0 + 1) (size_sub (size_sub t (i0 + 1)) 1) s1' = Inr s2"
        and c: "lawn_forward_at a t (i0 + 1) (j + 1) s2 = Inr (i1, s1)"
        by (subst (asm) lawn_forward_at.simps) (simp split: sum.splits)
      from "1.IH" [OF True a b c] show ?thesis by simp
    qed
  qed
  from 2 mono have "i \<le> i'" by metis
  with 2 show ?case by simp
qed

declare lawn_outer_at.simps [simp del]

definition sort_lawnmower_at :: "address \<Rightarrow> store \<Rightarrow> error + store \<times> sorted_disks" where
  "sort_lawnmower_at before mem =
     (case is_alternating (mem before) of
        Inl e \<Rightarrow> Inl e
      | Inr ok \<Rightarrow>
          if \<not> ok then Inl Assert_is_alternating
          else (case lawn_outer_at before (total_count (mem before)) (light_count (mem before)) 0
                       (mem, 0) of
                  Inl e \<Rightarrow> Inl e
                | Inr (mem', swapCount) \<Rightarrow>
                    Inr (mem', \<lparr>after = mem' before, swap_count = swapCount\<rparr>)))"

section \<open>The lawnmower sorter as section 4.3 of the specification words it\<close>

text \<open>
  The specification describes one round of the outer loop as three steps in a row: a
  forward sweep, "scan \<open>j\<close> from \<open>i+1\<close> to \<open>total_count()-i-1\<close>; wherever token \<open>j\<close> is
  color B and token \<open>j+1\<close> is color A, swap and count"; then "advance the shrink counter by
  one"; then a backward sweep, "scan \<open>j\<close> from \<open>total_count()-i-1\<close> down to \<open>i+1\<close>;
  wherever token \<open>j\<close> is color A and token \<open>j-1\<close> is color B, swap the pair at
  \<open>(j-1, j)\<close> and count"; the outer index runs "from 0 while \<open>i < color_count()/2\<close>".
  The definitions of this section follow these words, for the comparison with
  \<open>sort_lawnmower\<close>. The statement executed at one position of a sweep, and the backward
  sweep as a whole, are the ones of the source (\<open>forward_step\<close>, \<open>lawn_backward\<close>).
\<close>

function ref_forward_sweep ::
  "nat \<Rightarrow> nat \<Rightarrow> nat \<Rightarrow> disk_state \<times> 32 word \<Rightarrow> error + disk_state \<times> 32 word" where
  "ref_forward_sweep totalCount i j s =
     (if j < size_sub totalCount i then
        (case forward_step s j of
           Inl e \<Rightarrow> Inl e
         | Inr s' \<Rightarrow> ref_forward_sweep totalCount i (j + 1) s')
      else Inr s)"
  by pat_completeness auto
termination
  by (relation "measure (\<lambda>(t, i, j, s). size_sub t i - j)") auto

declare ref_forward_sweep.simps [simp del]

function ref_outer ::
  "nat \<Rightarrow> nat \<Rightarrow> nat \<Rightarrow> disk_state \<times> 32 word \<Rightarrow> error + disk_state \<times> 32 word" where
  "ref_outer totalCount lightCount i s =
     (if i < lightCount div 2 then
        (case ref_forward_sweep totalCount i (i + 1) s of
           Inl e \<Rightarrow> Inl e
         | Inr s1 \<Rightarrow>
             (case lawn_backward (i + 1) (size_sub (size_sub totalCount (i + 1)) 1) s1 of
                Inl e \<Rightarrow> Inl e
              | Inr s2 \<Rightarrow> ref_outer totalCount lightCount (i + 1 + 1) s2))
      else Inr s)"
  by pat_completeness auto
termination
  by (relation "measure (\<lambda>(t, l, i, s). l div 2 - i)") auto

declare ref_outer.simps [simp del]

definition sort_lawnmower_reference :: "disk_state \<Rightarrow> error + disk_state \<times> sorted_disks" where
  "sort_lawnmower_reference before =
     (case is_alternating before of
        Inl e \<Rightarrow> Inl e
      | Inr ok \<Rightarrow>
          if \<not> ok then Inl Assert_is_alternating
          else (case ref_outer (total_count before) (light_count before) 0 (before, 0) of
                  Inl e \<Rightarrow> Inl e
                | Inr (before', swapCount) \<Rightarrow>
                    Inr (before', \<lparr>after = before', swap_count = swapCount\<rparr>)))"

section \<open>Notions used in the statements\<close>

text \<open>
  Every \<open>disk_state\<close> object is built by the one constructor, which makes
  \<open>light_count * 2\<close> disks and asserts that there is at least one pair, and \<open>swap\<close>, the only
  operation that writes to a row, keeps its length: the rows that exist have a positive, even
  number of disks.
\<close>

definition row_invariant :: "disk_state \<Rightarrow> bool" where
  "row_invariant cs = (0 < total_count cs \<and> even (total_count cs))"

text \<open>
  The alternating row of \<open>m\<close> pairs, the grouped row of \<open>k\<close> light and \<open>k\<close> dark disks,
  and the number \<open>0 + 1 + \<dots> + (k - 1)\<close>.
\<close>

definition ld :: "nat \<Rightarrow> disk_state" where
  "ld m = concat (replicate m [DISK_LIGHT, DISK_DARK])"

definition grouped :: "nat \<Rightarrow> disk_state" where
  "grouped k = replicate k DISK_LIGHT @ replicate k DISK_DARK"

fun tri :: "nat \<Rightarrow> nat" where
  "tri 0 = 0"
| "tri (Suc n) = n + tri n"

text \<open>
  The row at the start of pass \<open>i\<close> of the left-to-right sorter, and the row of the lawnmower
  sorter when round \<open>t\<close> of its forward loop has done its test, each with \<open>m\<close> pairs still
  interleaved.
\<close>

definition ltr_row :: "nat \<Rightarrow> nat \<Rightarrow> disk_state" where
  "ltr_row i m = replicate i DISK_LIGHT @ ld m @ replicate i DISK_DARK"

definition lawn_row :: "nat \<Rightarrow> nat \<Rightarrow> disk_state" where
  "lawn_row t m =
     replicate (t + 2) DISK_LIGHT @ [DISK_DARK, DISK_DARK] @ ld m @ replicate t DISK_DARK"

text \<open>
  Dropping the record of the swaps; a record all of whose entries found a dark disk on the
  left and a light one on the right; a state whose counter is the length of such a record.
\<close>

definition erase :: "disk_state \<times> 32 word \<times> swap_event list \<Rightarrow> disk_state \<times> 32 word" where
  "erase s = (case s of (before, swapCount, swaps) \<Rightarrow> (before, swapCount))"

definition dark_light_swaps :: "swap_event list \<Rightarrow> bool" where
  "dark_light_swaps swaps = list_all (\<lambda>(j, a, b). a = DISK_DARK \<and> b = DISK_LIGHT) swaps"

definition log_ok :: "disk_state \<times> 32 word \<times> swap_event list \<Rightarrow> bool" where
  "log_ok s = (case s of (before, swapCount, swaps) \<Rightarrow>
      dark_light_swaps swaps \<and> swapCount = of_nat (length swaps))"

text \<open>
  A state of the plain loops written into the store at one address, and the state of the
  plain loops read from the store at one address.
\<close>

definition put :: "store \<Rightarrow> address \<Rightarrow> disk_state \<times> 32 word \<Rightarrow> store \<times> 32 word" where
  "put mem a s = (case s of (cs, swapCount) \<Rightarrow> (mem(a := cs), swapCount))"

definition object :: "address \<Rightarrow> store \<times> 32 word \<Rightarrow> disk_state \<times> 32 word" where
  "object a s = (case s of (mem, swapCount) \<Rightarrow> (mem a, swapCount))"

section \<open>Lemmas\<close>

subsection \<open>Rows and single steps\<close>

lemma ld_0 [simp]: "ld 0 = []"
  by (simp add: ld_def)

lemma ld_Suc [simp]: "ld (Suc m) = DISK_LIGHT # DISK_DARK # ld m"
  by (simp add: ld_def)

lemma length_ld [simp]: "length (ld m) = 2 * m"
  by (induction m) simp_all

lemma ld_snoc: "ld (Suc m) = ld m @ [DISK_LIGHT, DISK_DARK]"
  by (induction m) simp_all

lemma lights_ld [simp]: "length (filter (\<lambda>c. c = DISK_LIGHT) (ld m)) = m"
  by (induction m) simp_all

lemma darks_ld [simp]: "length (filter (\<lambda>c. c = DISK_DARK) (ld m)) = m"
  by (induction m) simp_all

lemma nth_ld: "j < 2 * m \<Longrightarrow> ld m ! j = (if even j then DISK_LIGHT else DISK_DARK)"
proof (induction m arbitrary: j)
  case 0
  then show ?case by simp
next
  case (Suc m)
  show ?case
  proof (cases j)
    case 0
    then show ?thesis by simp
  next
    case (Suc j1)
    show ?thesis
    proof (cases j1)
      case 0
      with Suc show ?thesis by simp
    next
      case (Suc j2)
      with \<open>j = Suc j1\<close> Suc.prems have "j2 < 2 * m" by simp
      from Suc.IH [OF this] \<open>j = Suc j1\<close> Suc show ?thesis by simp
    qed
  qed
qed

lemma length_grouped [simp]: "length (grouped k) = 2 * k"
  by (simp add: grouped_def)

lemma nth_grouped:
  "j < 2 * k \<Longrightarrow> grouped k ! j = (if j < k then DISK_LIGHT else DISK_DARK)"
  by (simp add: grouped_def nth_append)

lemma grouped_neq_ld: "2 \<le> k \<Longrightarrow> grouped k \<noteq> ld k"
proof
  assume k: "2 \<le> k" and eq: "grouped k = ld k"
  have "grouped k ! 1 = DISK_LIGHT" using k by (simp add: nth_grouped)
  moreover have "ld k ! 1 = DISK_DARK" using k by (simp add: nth_ld)
  ultimately show False using eq by simp
qed

lemma tri_closed: "tri k = k * (k - 1) div 2"
proof -
  have "2 * tri k = k * (k - 1)"
    by (induction k) (simp_all add: algebra_simps)
  then show ?thesis by simp
qed

lemma size_sub_le: "b \<le> a \<Longrightarrow> size_sub a b = a - b"
  by (simp add: size_sub_def)

lemma get_in [simp]: "i < length cs \<Longrightarrow> get cs i = Inr (cs ! i)"
  by (simp add: get_def is_index_def total_count_def)

lemma get_out [simp]: "\<not> i < length cs \<Longrightarrow> get cs i = Inl Assert_is_index"
  by (simp add: get_def is_index_def total_count_def)

lemma swap_append:
  "length pre = j \<Longrightarrow> swap (pre @ a # b # post) j = Inr (pre @ b # a # post)"
  by (simp add: swap_def is_index_def total_count_def nth_append list_update_append)

lemma forward_step_hit:
  "length pre = j \<Longrightarrow>
   forward_step (pre @ DISK_DARK # DISK_LIGHT # post, n) j =
     Inr (pre @ DISK_LIGHT # DISK_DARK # post, n + 1)"
  by (simp add: forward_step_def dark_then_light_def swap_append nth_append)

lemma forward_step_light:
  "j < length cs \<Longrightarrow> cs ! j = DISK_LIGHT \<Longrightarrow> forward_step (cs, n) j = Inr (cs, n)"
  by (simp add: forward_step_def dark_then_light_def)

lemma forward_step_dark_dark:
  "Suc j < length cs \<Longrightarrow> cs ! Suc j = DISK_DARK \<Longrightarrow> forward_step (cs, n) j = Inr (cs, n)"
  by (simp add: forward_step_def dark_then_light_def)

lemma backward_step_hit:
  "length pre = j \<Longrightarrow>
   backward_step (pre @ DISK_DARK # DISK_LIGHT # post, n) (Suc j) =
     Inr (pre @ DISK_LIGHT # DISK_DARK # post, n + 1)"
  by (simp add: backward_step_def light_after_dark_def swap_append nth_append size_sub_def)

lemma backward_step_dark:
  "j < length cs \<Longrightarrow> cs ! j = DISK_DARK \<Longrightarrow> backward_step (cs, n) j = Inr (cs, n)"
  by (simp add: backward_step_def light_after_dark_def)

lemma backward_step_light_light:
  "Suc j < length cs \<Longrightarrow> cs ! j = DISK_LIGHT \<Longrightarrow> backward_step (cs, n) (Suc j) = Inr (cs, n)"
  by (simp add: backward_step_def light_after_dark_def size_sub_def)

lemma forward_step_grouped:
  assumes "Suc j < 2 * k"
  shows "forward_step (grouped k, n) j = Inr (grouped k, n)"
proof (cases "j < k")
  case True
  then show ?thesis
    using assms by (intro forward_step_light) (simp_all add: nth_grouped)
next
  case False
  then show ?thesis
    using assms by (intro forward_step_dark_dark) (simp_all add: nth_grouped)
qed

lemma backward_step_grouped:
  assumes "Suc j < 2 * k"
  shows "backward_step (grouped k, n) (Suc j) = Inr (grouped k, n)"
proof (cases "Suc j < k")
  case True
  then show ?thesis
    using assms by (intro backward_step_light_light) (simp_all add: nth_grouped)
next
  case False
  then show ?thesis
    using assms by (intro backward_step_dark) (simp_all add: nth_grouped)
qed

subsection \<open>One round of each loop\<close>

lemma ltr_inner_stop:
  "\<not> j < size_sub (size_sub totalCount i) 1 \<Longrightarrow> ltr_inner totalCount i j s = Inr s"
  by (subst ltr_inner.simps) simp

lemma ltr_inner_step:
  "j < size_sub (size_sub totalCount i) 1 \<Longrightarrow> forward_step s j = Inr s' \<Longrightarrow>
   ltr_inner totalCount i j s = ltr_inner totalCount i (Suc j) s'"
  by (subst ltr_inner.simps) simp

lemma ltr_outer_stop:
  "\<not> i < lightCount \<Longrightarrow> ltr_outer totalCount lightCount i s = Inr s"
  by (subst ltr_outer.simps) simp

lemma ltr_outer_step:
  "i < lightCount \<Longrightarrow> ltr_inner totalCount i (Suc i) s = Inr s' \<Longrightarrow>
   ltr_outer totalCount lightCount i s = ltr_outer totalCount lightCount (Suc i) s'"
  by (subst ltr_outer.simps) simp

lemma lawn_backward_stop:
  "\<not> i < j \<Longrightarrow> lawn_backward i j s = Inr s"
  by (subst lawn_backward.simps) simp

lemma lawn_backward_step:
  "i < Suc j \<Longrightarrow> backward_step s (Suc j) = Inr s' \<Longrightarrow>
   lawn_backward i (Suc j) s = lawn_backward i j s'"
  by (subst lawn_backward.simps) (simp add: size_sub_def)

lemma lawn_forward_stop:
  "\<not> j < size_sub totalCount i \<Longrightarrow> lawn_forward totalCount i j s = Inr (i, s)"
  by (subst lawn_forward.simps) simp

lemma lawn_forward_round:
  "j < size_sub totalCount i \<Longrightarrow> forward_step s j = Inr s1 \<Longrightarrow>
   lawn_backward (Suc i) (size_sub (size_sub totalCount (Suc i)) 1) s1 = Inr s2 \<Longrightarrow>
   lawn_forward totalCount i j s = lawn_forward totalCount (Suc i) (Suc j) s2"
  by (subst lawn_forward.simps) simp

lemma lawn_outer_stop:
  "\<not> i < lightCount div 2 \<Longrightarrow> lawn_outer totalCount lightCount i s = Inr s"
  by (subst lawn_outer.simps) simp

lemma lawn_outer_step:
  "i < lightCount div 2 \<Longrightarrow> lawn_forward totalCount i (Suc i) s = Inr (i', s') \<Longrightarrow>
   lawn_outer totalCount lightCount i s = lawn_outer totalCount lightCount (Suc i') s'"
  by (subst lawn_outer.simps) simp

subsection \<open>The format checks and the constructor\<close>

lemma is_alternating_loop_pairs:
  "length rest = 2 * m \<Longrightarrow> pre \<noteq> [] \<or> 0 < m \<Longrightarrow> sz = length pre + 2 * m \<Longrightarrow>
   is_alternating_loop (pre @ rest) sz (length pre) = Inr (rest = ld m)"
proof (induction m arbitrary: pre rest)
  case 0
  then have "Suc 0 \<le> length pre" by (cases pre) simp_all
  with 0 have nlt: "\<not> length pre < size_sub sz 1"
    by (simp add: size_sub_def)
  from 0 nlt show ?case
    by (subst is_alternating_loop.simps) simp
next
  case (Suc m)
  from Suc.prems(1) obtain a b rest' where rest: "rest = a # b # rest'"
    by (cases rest; cases "tl rest") auto
  have len': "length rest' = 2 * m"
    using Suc.prems(1) rest by simp
  have lt: "length pre < size_sub sz 1"
    using Suc.prems(3) by (simp add: size_sub_def)
  have sz': "sz = length (pre @ [a, b]) + 2 * m"
    using Suc.prems(3) by simp
  have IH: "is_alternating_loop ((pre @ [a, b]) @ rest') sz (length (pre @ [a, b])) =
            Inr (rest' = ld m)"
    by (rule Suc.IH [OF len' _ sz']) simp
  have step: "is_alternating_loop (pre @ rest) sz (length pre) =
      (if a \<noteq> DISK_LIGHT then Inr False
       else if b \<noteq> DISK_DARK then Inr False
       else is_alternating_loop ((pre @ [a, b]) @ rest') sz (length (pre @ [a, b])))"
    using lt by (subst is_alternating_loop.simps) (simp add: rest nth_append)
  show ?case unfolding step IH by (auto simp: rest)
qed

lemma is_alternating_iff:
  assumes "even (length cs)" "0 < length cs"
  shows "is_alternating cs = Inr (cs = ld (length cs div 2))"
proof -
  from assms obtain m where m: "length cs = 2 * m" "0 < m"
    by (auto elim: evenE)
  have "is_alternating_loop ([] @ cs) (length cs) (length ([] :: disk_state)) = Inr (cs = ld m)"
    using m by (intro is_alternating_loop_pairs) simp_all
  then show ?thesis using m by (simp add: is_alternating_def total_count_def)
qed

lemma is_alternating_ld: "0 < k \<Longrightarrow> is_alternating (ld k) = Inr True"
  by (simp add: is_alternating_iff)

lemma is_alternating_empty: "is_alternating [] = Inl Assert_is_index"
  by (simp add: is_alternating_def total_count_def size_sub_def is_alternating_loop.simps [of "[]"])

lemma is_alternating_grouped: "2 \<le> k \<Longrightarrow> is_alternating (grouped k) = Inr False"
  by (simp add: is_alternating_iff grouped_neq_ld)

lemma alternating_row:
  assumes "row_invariant before" "is_alternating before = Inr True"
  shows "0 < total_count before div 2 \<and> before = ld (total_count before div 2)"
proof -
  from assms(1) have e: "even (length before)" and p: "0 < length before"
    by (simp_all add: row_invariant_def total_count_def)
  from is_alternating_iff [OF e p] assms(2) have "before = ld (length before div 2)"
    by simp
  moreover from e p have "0 < length before div 2"
    by (cases before) (auto elim: evenE)
  ultimately show ?thesis by (simp add: total_count_def)
qed

lemma is_sorted_loop_grouped:
  "i \<le> k \<Longrightarrow> is_sorted_loop (grouped k) k i = Inr True"
proof (induction "k - i" arbitrary: i)
  case 0
  then show ?case by (subst is_sorted_loop.simps) simp
next
  case (Suc d)
  then have lt: "i < k" and IH: "is_sorted_loop (grouped k) k (Suc i) = Inr True"
    by simp_all
  show ?case
    using lt IH by (subst is_sorted_loop.simps) (simp add: nth_grouped)
qed

lemma is_sorted_grouped: "is_sorted (grouped k) = Inr True"
  by (simp add: is_sorted_def light_count_def dark_count_def total_count_def
      is_sorted_loop_grouped)

lemma is_sorted_ld_1: "is_sorted (ld 1) = Inr True"
  by (simp add: is_sorted_def light_count_def dark_count_def total_count_def
      is_sorted_loop.simps [of _ _ 0] is_sorted_loop.simps [of _ _ "Suc 0"])

lemma is_sorted_ld_ge2:
  assumes "2 \<le> k"
  shows "is_sorted (ld k) = Inr False"
proof (cases "even k")
  case True
  with assms show ?thesis
    by (simp add: is_sorted_def light_count_def dark_count_def total_count_def
        is_sorted_loop.simps [of _ _ 0] nth_ld)
next
  case False
  with assms show ?thesis
    by (simp add: is_sorted_def light_count_def dark_count_def total_count_def
        is_sorted_loop.simps [of _ _ 0] is_sorted_loop.simps [of _ _ "Suc 0"] nth_ld)
qed

lemma ctor_loop_fill:
  "ctor_loop (ld a @ replicate (2 * b) DISK_LIGHT) (2 * a + 1) = ld (a + b)"
proof (induction b arbitrary: a)
  case 0
  show ?case by (subst ctor_loop.simps) simp
next
  case (Suc b)
  have upd: "(ld a @ replicate (2 * Suc b) DISK_LIGHT)[2 * a + 1 := DISK_DARK] =
        ld (Suc a) @ replicate (2 * b) DISK_LIGHT"
    by (simp add: list_update_append ld_snoc [symmetric] del: ld_Suc)
  have "ctor_loop (ld a @ replicate (2 * Suc b) DISK_LIGHT) (2 * a + 1) =
        ctor_loop (ld (Suc a) @ replicate (2 * b) DISK_LIGHT) (2 * Suc a + 1)"
    by (subst ctor_loop.simps) (simp only: upd, simp)
  also have "\<dots> = ld (Suc a + b)" by (rule Suc.IH)
  finally show ?case by simp
qed

lemma disk_state_ctor_ld:
  assumes "0 < unat n" "unat n < 2 ^ 63"
  shows "disk_state_ctor n = Inr (ld (unat n))"
proof -
  have u: "unat (n * 2) = 2 * unat n"
    using assms(2) by (simp add: unat_word_ariths)
  have "ctor_loop (ld 0 @ replicate (2 * unat n) DISK_LIGHT) (2 * 0 + 1) = ld (0 + unat n)"
    by (rule ctor_loop_fill)
  then show ?thesis
    using assms(1) by (simp add: disk_state_ctor_def u dark_count_def total_count_def)
qed

lemma disk_state_ctor_wrap: "disk_state_ctor (2 ^ 63) = Inl Assert_dark_count"
  by (simp add: disk_state_ctor_def dark_count_def total_count_def)

lemma std_equal_refl: "std_equal cs cs = Inr True"
  by (induction cs) simp_all

lemma std_equal_same_length:
  "length lhs = length rhs \<Longrightarrow> std_equal lhs rhs = Inr (lhs = rhs)"
  by (induction lhs rhs rule: std_equal.induct) auto

subsection \<open>The left-to-right sorter on an alternating row\<close>

text \<open>
  A forward scan that starts on a dark disk carries it to the end of the scanned stretch:
  every light disk it meets moves one place to the left, and a dark disk it meets takes over.
\<close>

lemma ltr_inner_carry:
  "length pre = j \<Longrightarrow> size_sub (size_sub totalCount i) 1 = j + length w \<Longrightarrow>
   ltr_inner totalCount i j (pre @ DISK_DARK # w @ post, n) =
     Inr (pre @ w @ DISK_DARK # post,
          n + of_nat (length (filter (\<lambda>c. c = DISK_LIGHT) w)))"
proof (induction w arbitrary: pre j n)
  case Nil
  then show ?case by (simp add: ltr_inner_stop)
next
  case (Cons c w)
  have len: "length (pre @ [c]) = Suc j"
    using Cons.prems by simp
  have bound: "size_sub (size_sub totalCount i) 1 = Suc j + length w"
    using Cons.prems by simp
  have lt: "j < size_sub (size_sub totalCount i) 1"
    using Cons.prems by simp
  show ?case
  proof (cases c)
    case DISK_LIGHT
    have "forward_step (pre @ DISK_DARK # DISK_LIGHT # w @ post, n) j =
          Inr (pre @ DISK_LIGHT # DISK_DARK # w @ post, n + 1)"
      using Cons.prems(1) by (rule forward_step_hit)
    then have step: "forward_step (pre @ DISK_DARK # (c # w) @ post, n) j =
          Inr ((pre @ [c]) @ DISK_DARK # w @ post, n + 1)"
      using DISK_LIGHT by simp
    have "ltr_inner totalCount i j (pre @ DISK_DARK # (c # w) @ post, n) =
          ltr_inner totalCount i (Suc j) ((pre @ [c]) @ DISK_DARK # w @ post, n + 1)"
      using lt step by (rule ltr_inner_step)
    also have "\<dots> = Inr ((pre @ [c]) @ w @ DISK_DARK # post,
                     n + 1 + of_nat (length (filter (\<lambda>c. c = DISK_LIGHT) w)))"
      by (rule Cons.IH [OF len bound])
    finally show ?thesis using DISK_LIGHT by simp
  next
    case DISK_DARK
    have "forward_step (pre @ DISK_DARK # (c # w) @ post, n) j =
          Inr (pre @ DISK_DARK # (c # w) @ post, n)"
      using Cons.prems(1) DISK_DARK
      by (intro forward_step_dark_dark) (simp_all add: nth_append)
    then have step: "forward_step (pre @ DISK_DARK # (c # w) @ post, n) j =
          Inr ((pre @ [c]) @ DISK_DARK # w @ post, n)"
      using DISK_DARK by simp
    have "ltr_inner totalCount i j (pre @ DISK_DARK # (c # w) @ post, n) =
          ltr_inner totalCount i (Suc j) ((pre @ [c]) @ DISK_DARK # w @ post, n)"
      using lt step by (rule ltr_inner_step)
    also have "\<dots> = Inr ((pre @ [c]) @ w @ DISK_DARK # post,
                     n + of_nat (length (filter (\<lambda>c. c = DISK_LIGHT) w)))"
      by (rule Cons.IH [OF len bound])
    finally show ?thesis using DISK_DARK by simp
  qed
qed

lemma ltr_pass:
  assumes "totalCount = 2 * (i + Suc m)"
  shows "ltr_inner totalCount i (Suc i) (ltr_row i (Suc m), n) =
     Inr (ltr_row (Suc i) m, n + of_nat m)"
proof -
  have shape: "ltr_row i (Suc m) =
      (replicate i DISK_LIGHT @ [DISK_LIGHT]) @ DISK_DARK # ld m @ replicate i DISK_DARK"
    by (simp add: ltr_row_def)
  have res: "(replicate i DISK_LIGHT @ [DISK_LIGHT]) @ ld m @ DISK_DARK # replicate i DISK_DARK =
      ltr_row (Suc i) m"
    by (simp add: ltr_row_def replicate_app_Cons_same)
  have "ltr_inner totalCount i (Suc i)
          ((replicate i DISK_LIGHT @ [DISK_LIGHT]) @ DISK_DARK # ld m @ replicate i DISK_DARK, n) =
        Inr ((replicate i DISK_LIGHT @ [DISK_LIGHT]) @ ld m @ DISK_DARK # replicate i DISK_DARK,
             n + of_nat (length (filter (\<lambda>c. c = DISK_LIGHT) (ld m))))"
    using assms by (intro ltr_inner_carry) (simp_all add: size_sub_def)
  then show ?thesis by (simp only: shape res lights_ld)
qed

lemma ltr_outer_rows:
  "totalCount = 2 * (i + m) \<Longrightarrow> lightCount = i + m \<Longrightarrow>
   ltr_outer totalCount lightCount i (ltr_row i m, n) =
     Inr (grouped (i + m), n + of_nat (tri m))"
proof (induction m arbitrary: i n)
  case 0
  then show ?case by (simp add: ltr_outer_stop ltr_row_def grouped_def)
next
  case (Suc m)
  have pass: "ltr_inner totalCount i (Suc i) (ltr_row i (Suc m), n) =
       Inr (ltr_row (Suc i) m, n + of_nat m)"
    using Suc.prems by (intro ltr_pass) simp
  have lt: "i < lightCount"
    using Suc.prems by simp
  have "ltr_outer totalCount lightCount i (ltr_row i (Suc m), n) =
        ltr_outer totalCount lightCount (Suc i) (ltr_row (Suc i) m, n + of_nat m)"
    using lt pass by (rule ltr_outer_step)
  also have "\<dots> = Inr (grouped (Suc i + m), n + of_nat m + of_nat (tri m))"
    using Suc.prems by (intro Suc.IH) simp_all
  finally show ?case by (simp add: add.assoc)
qed

lemma ltr_outer_ld:
  assumes "totalCount = 2 * k"
  shows "ltr_outer totalCount k 0 (ld k, 0) = Inr (grouped k, of_nat (tri k))"
proof -
  have "ltr_outer totalCount k 0 (ltr_row 0 k, 0) = Inr (grouped (0 + k), 0 + of_nat (tri k))"
    using assms by (intro ltr_outer_rows) simp_all
  then show ?thesis by (simp add: ltr_row_def)
qed

lemma sort_left_to_right_ld:
  "0 < k \<Longrightarrow> sort_left_to_right (ld k) =
     Inr (grouped k, \<lparr>after = grouped k, swap_count = of_nat (tri k)\<rparr>)"
  by (simp add: sort_left_to_right_def is_alternating_ld total_count_def light_count_def
      dark_count_def ltr_outer_ld)

subsection \<open>The lawnmower sorter on an alternating row\<close>

text \<open>
  A backward scan that starts on a light disk carries it to the front of the scanned
  stretch. On a grouped row neither scan finds a pair to swap.
\<close>

lemma lawn_backward_carry:
  "length pre = lo \<Longrightarrow>
   lawn_backward lo (lo + length w) (pre @ w @ DISK_LIGHT # post, n) =
     Inr (pre @ DISK_LIGHT # w @ post,
          n + of_nat (length (filter (\<lambda>c. c = DISK_DARK) w)))"
proof (induction w arbitrary: post n rule: rev_induct)
  case Nil
  then show ?case by (simp add: lawn_backward_stop)
next
  case (snoc c w)
  have pos: "lo + length (w @ [c]) = Suc (length (pre @ w))"
    using snoc.prems by simp
  have pos': "length (pre @ w) = lo + length w"
    using snoc.prems by simp
  have gt: "lo < Suc (length (pre @ w))"
    using snoc.prems by simp
  show ?case
  proof (cases c)
    case DISK_DARK
    have "backward_step ((pre @ w) @ DISK_DARK # DISK_LIGHT # post, n) (Suc (length (pre @ w))) =
          Inr ((pre @ w) @ DISK_LIGHT # DISK_DARK # post, n + 1)"
      by (rule backward_step_hit) simp
    then have step: "backward_step (pre @ (w @ [c]) @ DISK_LIGHT # post, n)
          (Suc (length (pre @ w))) = Inr (pre @ w @ DISK_LIGHT # (DISK_DARK # post), n + 1)"
      using DISK_DARK by simp
    have "lawn_backward lo (lo + length (w @ [c])) (pre @ (w @ [c]) @ DISK_LIGHT # post, n) =
          lawn_backward lo (length (pre @ w)) (pre @ w @ DISK_LIGHT # (DISK_DARK # post), n + 1)"
      unfolding pos using gt step by (rule lawn_backward_step)
    also have "\<dots> = Inr (pre @ DISK_LIGHT # w @ (DISK_DARK # post),
                     n + 1 + of_nat (length (filter (\<lambda>c. c = DISK_DARK) w)))"
      unfolding pos' by (rule snoc.IH [OF snoc.prems])
    finally show ?thesis using DISK_DARK by simp
  next
    case DISK_LIGHT
    have "backward_step ((pre @ w) @ DISK_LIGHT # DISK_LIGHT # post, n) (Suc (length (pre @ w))) =
          Inr ((pre @ w) @ DISK_LIGHT # DISK_LIGHT # post, n)"
      by (rule backward_step_light_light) (simp_all add: nth_append)
    then have step: "backward_step (pre @ (w @ [c]) @ DISK_LIGHT # post, n)
          (Suc (length (pre @ w))) = Inr (pre @ w @ DISK_LIGHT # (DISK_LIGHT # post), n)"
      using DISK_LIGHT by simp
    have "lawn_backward lo (lo + length (w @ [c])) (pre @ (w @ [c]) @ DISK_LIGHT # post, n) =
          lawn_backward lo (length (pre @ w)) (pre @ w @ DISK_LIGHT # (DISK_LIGHT # post), n)"
      unfolding pos using gt step by (rule lawn_backward_step)
    also have "\<dots> = Inr (pre @ DISK_LIGHT # w @ (DISK_LIGHT # post),
                     n + of_nat (length (filter (\<lambda>c. c = DISK_DARK) w)))"
      unfolding pos' by (rule snoc.IH [OF snoc.prems])
    finally show ?thesis using DISK_LIGHT by simp
  qed
qed

lemma lawn_backward_grouped:
  "j < 2 * k \<Longrightarrow> lawn_backward lo j (grouped k, n) = Inr (grouped k, n)"
proof (induction j)
  case 0
  show ?case by (simp add: lawn_backward_stop)
next
  case (Suc j)
  then have IH: "lawn_backward lo j (grouped k, n) = Inr (grouped k, n)" by simp
  have step: "backward_step (grouped k, n) (Suc j) = Inr (grouped k, n)"
    using Suc.prems by (rule backward_step_grouped)
  show ?case
  proof (cases "lo < Suc j")
    case True
    from True step have "lawn_backward lo (Suc j) (grouped k, n) = lawn_backward lo j (grouped k, n)"
      by (rule lawn_backward_step)
    with IH show ?thesis by simp
  next
    case False
    then show ?thesis by (rule lawn_backward_stop)
  qed
qed

lemma lawn_forward_grouped:
  "1 \<le> i \<Longrightarrow> i \<le> k \<Longrightarrow> totalCount = 2 * k \<Longrightarrow>
   lawn_forward totalCount i (Suc i) (grouped k, n) = Inr (k, grouped k, n)"
proof (induction "k - i" arbitrary: i)
  case 0
  then have "i = k" by simp
  with 0 have "\<not> Suc i < size_sub totalCount i"
    by (simp add: size_sub_def)
  then have "lawn_forward totalCount i (Suc i) (grouped k, n) = Inr (i, grouped k, n)"
    by (rule lawn_forward_stop)
  with \<open>i = k\<close> show ?case by simp
next
  case (Suc d)
  then have lt: "i < k" by simp
  have head: "Suc i < size_sub totalCount i"
    using lt Suc.prems by (simp add: size_sub_def)
  have fwd: "forward_step (grouped k, n) (Suc i) = Inr (grouped k, n)"
    using lt Suc.prems by (intro forward_step_grouped) simp
  have "size_sub (size_sub totalCount (Suc i)) 1 = 2 * k - i - 2"
    using lt Suc.prems by (simp add: size_sub_le)
  then have "size_sub (size_sub totalCount (Suc i)) 1 < 2 * k"
    using lt by simp
  then have bwd: "lawn_backward (Suc i) (size_sub (size_sub totalCount (Suc i)) 1) (grouped k, n) =
             Inr (grouped k, n)"
    by (rule lawn_backward_grouped)
  have IH: "lawn_forward totalCount (Suc i) (Suc (Suc i)) (grouped k, n) = Inr (k, grouped k, n)"
    using Suc.hyps(2) lt Suc.prems by (intro Suc.hyps(1)) simp_all
  have "lawn_forward totalCount i (Suc i) (grouped k, n) =
        lawn_forward totalCount (Suc i) (Suc (Suc i)) (grouped k, n)"
    using head fwd bwd by (rule lawn_forward_round)
  with IH show ?case by simp
qed

lemma lawn_row_0: "lawn_row t 0 = grouped (t + 2)"
  by (simp add: lawn_row_def grouped_def replicate_app_Cons_same)

lemma length_lawn_row: "length (lawn_row t m) = 2 * (t + m + 2)"
  by (simp add: lawn_row_def)

lemma lawn_row_light: "lawn_row t m ! Suc t = DISK_LIGHT"
proof -
  have "(replicate (t + 2) DISK_LIGHT @ ([DISK_DARK, DISK_DARK] @ ld m @ replicate t DISK_DARK))
          ! Suc t = replicate (t + 2) DISK_LIGHT ! Suc t"
    by (subst nth_append) simp
  also have "\<dots> = DISK_LIGHT"
    by (rule nth_replicate) simp
  finally show ?thesis
    unfolding lawn_row_def .
qed

lemma lawn_backward_row:
  assumes "totalCount = 2 * (t + Suc m + 2)"
  shows "lawn_backward (Suc t) (size_sub (size_sub totalCount (Suc t)) 1) (lawn_row t (Suc m), n) =
         Inr (lawn_row (Suc t) m, n + of_nat (m + 2))"
proof -
  let ?pre = "replicate (Suc t) DISK_LIGHT"
  let ?w = "[DISK_LIGHT, DISK_DARK, DISK_DARK] @ ld m"
  let ?post = "DISK_DARK # replicate t DISK_DARK"
  have shape: "lawn_row t (Suc m) = ?pre @ ?w @ DISK_LIGHT # ?post"
    by (simp add: lawn_row_def ld_snoc replicate_app_Cons_same del: ld_Suc)
  have res: "?pre @ DISK_LIGHT # ?w @ ?post = lawn_row (Suc t) m"
    by (simp add: lawn_row_def replicate_app_Cons_same)
  have start: "size_sub (size_sub totalCount (Suc t)) 1 = Suc t + length ?w"
    using assms by (simp add: size_sub_le)
  have "lawn_backward (Suc t) (Suc t + length ?w) (?pre @ ?w @ DISK_LIGHT # ?post, n) =
        Inr (?pre @ DISK_LIGHT # ?w @ ?post,
             n + of_nat (length (filter (\<lambda>c. c = DISK_DARK) ?w)))"
    by (rule lawn_backward_carry) simp
  then show ?thesis
    unfolding shape res start by simp
qed

lemma lawn_forward_rows:
  "1 \<le> t \<Longrightarrow> totalCount = 2 * (t + m + 2) \<Longrightarrow>
   lawn_forward totalCount t (Suc t) (lawn_row t m, n) =
     Inr (t + m + 2, grouped (t + m + 2), n + of_nat (tri (m + 2)) - 1)"
proof (induction m arbitrary: t n)
  case 0
  have "lawn_forward totalCount t (Suc t) (grouped (t + 2), n) = Inr (t + 2, grouped (t + 2), n)"
    using 0 by (intro lawn_forward_grouped) simp_all
  then show ?case by (simp add: lawn_row_0)
next
  case (Suc m)
  have head: "Suc t < size_sub totalCount t"
    using Suc.prems by (simp add: size_sub_le)
  have fwd: "forward_step (lawn_row t (Suc m), n) (Suc t) = Inr (lawn_row t (Suc m), n)"
    by (intro forward_step_light) (simp_all add: lawn_row_light length_lawn_row)
  have bwd: "lawn_backward (Suc t) (size_sub (size_sub totalCount (Suc t)) 1)
              (lawn_row t (Suc m), n) = Inr (lawn_row (Suc t) m, n + of_nat (m + 2))"
    using Suc.prems(2) by (rule lawn_backward_row)
  have "lawn_forward totalCount t (Suc t) (lawn_row t (Suc m), n) =
        lawn_forward totalCount (Suc t) (Suc (Suc t)) (lawn_row (Suc t) m, n + of_nat (m + 2))"
    using head fwd bwd by (rule lawn_forward_round)
  also have "\<dots> = Inr (Suc t + m + 2, grouped (Suc t + m + 2),
                     n + of_nat (m + 2) + of_nat (tri (m + 2)) - 1)"
    using Suc.prems by (intro Suc.IH) simp_all
  finally show ?case by (simp add: add.assoc)
qed

lemma lawn_forward_ld:
  assumes "totalCount = 2 * (m + 2)"
  shows "lawn_forward totalCount 0 (Suc 0) (ld (m + 2), n) =
         Inr (m + 2, grouped (m + 2), n + of_nat (tri (m + 2)))"
proof -
  have head: "Suc 0 < size_sub totalCount 0"
    using assms by (simp add: size_sub_le)
  have "forward_step ([DISK_LIGHT] @ DISK_DARK # DISK_LIGHT # (DISK_DARK # ld m), n) (Suc 0) =
        Inr ([DISK_LIGHT] @ DISK_LIGHT # DISK_DARK # (DISK_DARK # ld m), n + 1)"
    by (rule forward_step_hit) simp
  then have fwd: "forward_step (ld (m + 2), n) (Suc 0) = Inr (lawn_row 0 m, n + 1)"
    by (simp add: lawn_row_def)
  show ?thesis
  proof (cases m)
    case 0
    have "size_sub (size_sub totalCount (Suc 0)) 1 < 2 * 2"
      using assms 0 by (simp add: size_sub_le)
    then have bwd: "lawn_backward (Suc 0) (size_sub (size_sub totalCount (Suc 0)) 1)
              (grouped 2, n + 1) = Inr (grouped 2, n + 1)"
      by (rule lawn_backward_grouped)
    have r0: "lawn_row 0 0 = grouped 2"
      using lawn_row_0 [of 0] by (simp add: numeral_2_eq_2)
    have fwd0: "forward_step (ld (m + 2), n) (Suc 0) = Inr (grouped 2, n + 1)"
      using fwd 0 r0 by simp
    have "lawn_forward totalCount 0 (Suc 0) (ld (m + 2), n) =
          lawn_forward totalCount (Suc 0) (Suc (Suc 0)) (grouped 2, n + 1)"
      using head fwd0 bwd by (rule lawn_forward_round)
    also have "\<dots> = Inr (2, grouped 2, n + 1)"
      using assms 0 by (intro lawn_forward_grouped) simp_all
    finally show ?thesis using 0 by (simp add: numeral_2_eq_2)
  next
    case (Suc m')
    have bwd: "lawn_backward (Suc 0) (size_sub (size_sub totalCount (Suc 0)) 1)
                (lawn_row 0 (Suc m'), n + 1) = Inr (lawn_row (Suc 0) m', n + 1 + of_nat (m' + 2))"
      using assms Suc by (intro lawn_backward_row) simp
    have "lawn_forward totalCount 0 (Suc 0) (ld (m + 2), n) =
          lawn_forward totalCount (Suc 0) (Suc (Suc 0))
            (lawn_row (Suc 0) m', n + 1 + of_nat (m' + 2))"
      using head fwd [unfolded Suc] bwd unfolding Suc by (rule lawn_forward_round)
    also have "\<dots> = Inr (Suc 0 + m' + 2, grouped (Suc 0 + m' + 2),
                       n + 1 + of_nat (m' + 2) + of_nat (tri (m' + 2)) - 1)"
      using assms Suc by (intro lawn_forward_rows) simp_all
    finally show ?thesis using Suc by (simp add: add.assoc)
  qed
qed

lemma lawn_outer_ld:
  assumes "0 < k" "totalCount = 2 * k"
  shows "lawn_outer totalCount k 0 (ld k, 0) = Inr (grouped k, of_nat (tri k))"
proof (cases "k = 1")
  case True
  then show ?thesis
    by (simp add: lawn_outer_stop grouped_def)
next
  case False
  with assms have "2 \<le> k" by simp
  then obtain m where k: "k = m + 2"
    using le_Suc_ex [of 2 k] by (auto simp: add.commute)
  have head: "0 < k div 2"
    using \<open>2 \<le> k\<close> by simp
  have fwd: "lawn_forward totalCount 0 (Suc 0) (ld k, 0) =
             Inr (k, grouped k, of_nat (tri k))"
    using lawn_forward_ld [of totalCount m 0] assms k by simp
  have "lawn_outer totalCount k 0 (ld k, 0) =
        lawn_outer totalCount k (Suc k) (grouped k, of_nat (tri k))"
    using head fwd by (rule lawn_outer_step)
  also have "\<dots> = Inr (grouped k, of_nat (tri k))"
    by (rule lawn_outer_stop) simp
  finally show ?thesis .
qed

lemma sort_lawnmower_ld:
  "0 < k \<Longrightarrow> sort_lawnmower (ld k) =
     Inr (grouped k, \<lparr>after = grouped k, swap_count = of_nat (tri k)\<rparr>)"
  by (simp add: sort_lawnmower_def is_alternating_ld total_count_def light_count_def
      dark_count_def lawn_outer_ld)

subsection \<open>The record of the swaps\<close>

lemma forward_step_log_erase:
  "forward_step (erase s) j = map_sum id erase (forward_step_log s j)"
  by (cases s) (simp add: forward_step_def forward_step_log_def erase_def split: sum.splits)

lemma backward_step_log_erase:
  "backward_step (erase s) j = map_sum id erase (backward_step_log s j)"
  by (cases s) (simp add: backward_step_def backward_step_log_def erase_def split: sum.splits)

lemma ltr_inner_log_erase:
  "ltr_inner totalCount i j (erase s) = map_sum id erase (ltr_inner_log totalCount i j s)"
proof (induction totalCount i j s rule: ltr_inner_log.induct)
  case (1 totalCount i j s)
  show ?case
  proof (cases "j < size_sub (size_sub totalCount i) 1")
    case False
    then show ?thesis
      by (simp add: ltr_inner.simps [of _ _ j] ltr_inner_log.simps [of _ _ j])
  next
    case True
    show ?thesis
    proof (cases "forward_step_log s j")
      case (Inl e)
      then have "forward_step (erase s) j = Inl e"
        by (simp add: forward_step_log_erase)
      with True Inl show ?thesis
        by (simp add: ltr_inner.simps [of _ _ j] ltr_inner_log.simps [of _ _ j])
    next
      case (Inr s')
      then have "forward_step (erase s) j = Inr (erase s')"
        by (simp add: forward_step_log_erase)
      with True Inr "1.IH" [OF True Inr] show ?thesis
        by (simp add: ltr_inner.simps [of _ _ j] ltr_inner_log.simps [of _ _ j])
    qed
  qed
qed

lemma ltr_outer_log_erase:
  "ltr_outer totalCount lightCount i (erase s) =
   map_sum id erase (ltr_outer_log totalCount lightCount i s)"
proof (induction totalCount lightCount i s rule: ltr_outer_log.induct)
  case (1 totalCount lightCount i s)
  show ?case
  proof (cases "i < lightCount")
    case False
    then show ?thesis
      by (simp add: ltr_outer.simps [of _ _ i] ltr_outer_log.simps [of _ _ i])
  next
    case True
    show ?thesis
    proof (cases "ltr_inner_log totalCount i (i + 1) s")
      case (Inl e)
      then have "ltr_inner totalCount i (i + 1) (erase s) = Inl e"
        by (simp add: ltr_inner_log_erase)
      with True Inl show ?thesis
        by (simp add: ltr_outer.simps [of _ _ i] ltr_outer_log.simps [of _ _ i])
    next
      case (Inr s')
      then have "ltr_inner totalCount i (i + 1) (erase s) = Inr (erase s')"
        by (simp add: ltr_inner_log_erase)
      with True Inr "1.IH" [OF True Inr] show ?thesis
        by (simp add: ltr_outer.simps [of _ _ i] ltr_outer_log.simps [of _ _ i])
    qed
  qed
qed

lemma lawn_backward_log_erase:
  "lawn_backward i j (erase s) = map_sum id erase (lawn_backward_log i j s)"
proof (induction i j s rule: lawn_backward_log.induct)
  case (1 i j s)
  show ?case
  proof (cases "i < j")
    case False
    then show ?thesis
      by (simp add: lawn_backward.simps [of _ j] lawn_backward_log.simps [of _ j])
  next
    case True
    show ?thesis
    proof (cases "backward_step_log s j")
      case (Inl e)
      then have "backward_step (erase s) j = Inl e"
        by (simp add: backward_step_log_erase)
      with True Inl show ?thesis
        by (simp add: lawn_backward.simps [of _ j] lawn_backward_log.simps [of _ j])
    next
      case (Inr s')
      then have "backward_step (erase s) j = Inr (erase s')"
        by (simp add: backward_step_log_erase)
      with True Inr "1.IH" [OF True Inr] show ?thesis
        by (simp add: lawn_backward.simps [of _ j] lawn_backward_log.simps [of _ j])
    qed
  qed
qed

lemma lawn_forward_log_erase:
  "lawn_forward totalCount i j (erase s) =
   map_sum id (\<lambda>(i', s'). (i', erase s')) (lawn_forward_log totalCount i j s)"
proof (induction totalCount i j s rule: lawn_forward_log.induct)
  case (1 totalCount i j s)
  show ?case
  proof (cases "j < size_sub totalCount i")
    case False
    then show ?thesis
      by (simp add: lawn_forward.simps [of _ i j] lawn_forward_log.simps [of _ i j])
  next
    case True
    show ?thesis
    proof (cases "forward_step_log s j")
      case (Inl e)
      then have "forward_step (erase s) j = Inl e"
        by (simp add: forward_step_log_erase)
      with True Inl show ?thesis
        by (simp add: lawn_forward.simps [of _ i j] lawn_forward_log.simps [of _ i j])
    next
      case s1: (Inr s1)
      then have f: "forward_step (erase s) j = Inr (erase s1)"
        by (simp add: forward_step_log_erase)
      show ?thesis
      proof (cases "lawn_backward_log (i + 1) (size_sub (size_sub totalCount (i + 1)) 1) s1")
        case (Inl e)
        then have "lawn_backward (i + 1) (size_sub (size_sub totalCount (i + 1)) 1) (erase s1) =
                   Inl e"
          by (simp add: lawn_backward_log_erase)
        with True s1 f Inl show ?thesis
          by (simp add: lawn_forward.simps [of _ i j] lawn_forward_log.simps [of _ i j])
      next
        case (Inr s2)
        then have "lawn_backward (i + 1) (size_sub (size_sub totalCount (i + 1)) 1) (erase s1) =
                   Inr (erase s2)"
          by (simp add: lawn_backward_log_erase)
        with True s1 f Inr "1.IH" [OF True s1 Inr] show ?thesis
          by (simp add: lawn_forward.simps [of _ i j] lawn_forward_log.simps [of _ i j])
      qed
    qed
  qed
qed

lemma lawn_outer_log_erase:
  "lawn_outer totalCount lightCount i (erase s) =
   map_sum id erase (lawn_outer_log totalCount lightCount i s)"
proof (induction totalCount lightCount i s rule: lawn_outer_log.induct)
  case (1 totalCount lightCount i s)
  show ?case
  proof (cases "i < lightCount div 2")
    case False
    then show ?thesis
      by (simp add: lawn_outer.simps [of _ _ i] lawn_outer_log.simps [of _ _ i])
  next
    case True
    show ?thesis
    proof (cases "lawn_forward_log totalCount i (i + 1) s")
      case (Inl e)
      then have "lawn_forward totalCount i (i + 1) (erase s) = Inl e"
        by (simp add: lawn_forward_log_erase)
      with True Inl show ?thesis
        by (simp add: lawn_outer.simps [of _ _ i] lawn_outer_log.simps [of _ _ i])
    next
      case (Inr p)
      obtain i' s' where p: "p = (i', s')" by (cases p)
      with Inr have "lawn_forward totalCount i (i + 1) (erase s) = Inr (i', erase s')"
        by (simp add: lawn_forward_log_erase)
      with True Inr p "1.IH" [OF True Inr p [symmetric]] show ?thesis
        by (simp add: lawn_outer.simps [of _ _ i] lawn_outer_log.simps [of _ _ i])
    qed
  qed
qed

lemma sort_left_to_right_log_erase:
  "sort_left_to_right before =
   map_sum id (\<lambda>(before', r, swaps). (before', r)) (sort_left_to_right_log before)"
proof -
  have "ltr_outer (total_count before) (light_count before) 0 (erase (before, 0, [])) =
        map_sum id erase (ltr_outer_log (total_count before) (light_count before) 0 (before, 0, []))"
    by (rule ltr_outer_log_erase)
  then show ?thesis
    by (auto simp: sort_left_to_right_def sort_left_to_right_log_def erase_def
        split: sum.splits)
qed

lemma sort_lawnmower_log_erase:
  "sort_lawnmower before =
   map_sum id (\<lambda>(before', r, swaps). (before', r)) (sort_lawnmower_log before)"
proof -
  have "lawn_outer (total_count before) (light_count before) 0 (erase (before, 0, [])) =
        map_sum id erase (lawn_outer_log (total_count before) (light_count before) 0 (before, 0, []))"
    by (rule lawn_outer_log_erase)
  then show ?thesis
    by (auto simp: sort_lawnmower_def sort_lawnmower_log_def erase_def
        split: sum.splits)
qed

lemma dark_then_light_hit:
  "dark_then_light cs j = Inr True \<Longrightarrow> cs ! j = DISK_DARK \<and> cs ! (j + 1) = DISK_LIGHT"
  by (auto simp: dark_then_light_def get_def split: if_splits sum.splits)

lemma light_after_dark_hit:
  "light_after_dark cs j = Inr True \<Longrightarrow> cs ! j = DISK_LIGHT \<and> cs ! size_sub j 1 = DISK_DARK"
  by (auto simp: light_after_dark_def get_def split: if_splits sum.splits)

lemma forward_step_log_ok:
  assumes "forward_step_log s j = Inr s'" "log_ok s"
  shows "log_ok s'"
proof -
  obtain before swapCount swaps where s: "s = (before, swapCount, swaps)"
    by (cases s)
  show ?thesis
  proof (cases "dark_then_light before j = Inr True")
    case True
    from dark_then_light_hit [OF True] assms True show ?thesis
      by (auto simp: s forward_step_log_def log_ok_def dark_light_swaps_def split: sum.splits)
  next
    case False
    with assms show ?thesis
      by (auto simp: s forward_step_log_def log_ok_def split: sum.splits if_splits)
  qed
qed

lemma backward_step_log_ok:
  assumes "backward_step_log s j = Inr s'" "log_ok s" "0 < j"
  shows "log_ok s'"
proof -
  obtain before swapCount swaps where s: "s = (before, swapCount, swaps)"
    by (cases s)
  have j: "Suc (size_sub j (Suc 0)) = j"
    using assms(3) by (simp add: size_sub_def)
  show ?thesis
  proof (cases "light_after_dark before j = Inr True")
    case True
    from light_after_dark_hit [OF True] assms True show ?thesis
      by (auto simp: s j backward_step_log_def log_ok_def dark_light_swaps_def split: sum.splits)
  next
    case False
    with assms show ?thesis
      by (auto simp: s backward_step_log_def log_ok_def split: sum.splits if_splits)
  qed
qed

lemma ltr_inner_log_ok:
  "ltr_inner_log totalCount i j s = Inr s' \<Longrightarrow> log_ok s \<Longrightarrow> log_ok s'"
proof (induction totalCount i j s rule: ltr_inner_log.induct)
  case (1 totalCount i j s)
  show ?case
  proof (cases "j < size_sub (size_sub totalCount i) 1")
    case False
    with "1.prems" show ?thesis by (simp add: ltr_inner_log.simps [of _ _ j])
  next
    case True
    with "1.prems"(1) obtain s1 where
      a: "forward_step_log s j = Inr s1" and b: "ltr_inner_log totalCount i (j + 1) s1 = Inr s'"
      by (subst (asm) ltr_inner_log.simps) (simp split: sum.splits)
    from forward_step_log_ok [OF a "1.prems"(2)] "1.IH" [OF True a b] show ?thesis by simp
  qed
qed

lemma ltr_outer_log_ok:
  "ltr_outer_log totalCount lightCount i s = Inr s' \<Longrightarrow> log_ok s \<Longrightarrow> log_ok s'"
proof (induction totalCount lightCount i s rule: ltr_outer_log.induct)
  case (1 totalCount lightCount i s)
  show ?case
  proof (cases "i < lightCount")
    case False
    with "1.prems" show ?thesis by (simp add: ltr_outer_log.simps [of _ _ i])
  next
    case True
    with "1.prems"(1) obtain s1 where
      a: "ltr_inner_log totalCount i (i + 1) s = Inr s1"
      and b: "ltr_outer_log totalCount lightCount (i + 1) s1 = Inr s'"
      by (subst (asm) ltr_outer_log.simps) (simp split: sum.splits)
    from ltr_inner_log_ok [OF a "1.prems"(2)] "1.IH" [OF True a b] show ?thesis by simp
  qed
qed

lemma lawn_backward_log_ok:
  "lawn_backward_log i j s = Inr s' \<Longrightarrow> log_ok s \<Longrightarrow> log_ok s'"
proof (induction i j s rule: lawn_backward_log.induct)
  case (1 i j s)
  show ?case
  proof (cases "i < j")
    case False
    with "1.prems" show ?thesis by (simp add: lawn_backward_log.simps [of _ j])
  next
    case True
    with "1.prems"(1) obtain s1 where
      a: "backward_step_log s j = Inr s1" and b: "lawn_backward_log i (size_sub j 1) s1 = Inr s'"
      by (subst (asm) lawn_backward_log.simps) (simp split: sum.splits)
    from True have "0 < j" by simp
    from backward_step_log_ok [OF a "1.prems"(2) this] "1.IH" [OF True a b] show ?thesis by simp
  qed
qed

lemma lawn_forward_log_ok:
  "lawn_forward_log totalCount i j s = Inr (i', s') \<Longrightarrow> log_ok s \<Longrightarrow> log_ok s'"
proof (induction totalCount i j s rule: lawn_forward_log.induct)
  case (1 totalCount i j s)
  show ?case
  proof (cases "j < size_sub totalCount i")
    case False
    with "1.prems" show ?thesis by (simp add: lawn_forward_log.simps [of _ i j])
  next
    case True
    with "1.prems"(1) obtain s1 s2 where
      a: "forward_step_log s j = Inr s1"
      and b: "lawn_backward_log (i + 1) (size_sub (size_sub totalCount (i + 1)) 1) s1 = Inr s2"
      and c: "lawn_forward_log totalCount (i + 1) (j + 1) s2 = Inr (i', s')"
      by (subst (asm) lawn_forward_log.simps) (simp split: sum.splits)
    have "log_ok s1" using a "1.prems"(2) by (rule forward_step_log_ok)
    then have "log_ok s2" using b lawn_backward_log_ok by blast
    with "1.IH" [OF True a b c] show ?thesis .
  qed
qed

lemma lawn_outer_log_ok:
  "lawn_outer_log totalCount lightCount i s = Inr s' \<Longrightarrow> log_ok s \<Longrightarrow> log_ok s'"
proof (induction totalCount lightCount i s rule: lawn_outer_log.induct)
  case (1 totalCount lightCount i s)
  show ?case
  proof (cases "i < lightCount div 2")
    case False
    with "1.prems" show ?thesis by (simp add: lawn_outer_log.simps [of _ _ i])
  next
    case True
    with "1.prems"(1) obtain i1 s1 where
      a: "lawn_forward_log totalCount i (i + 1) s = Inr (i1, s1)"
      and b: "lawn_outer_log totalCount lightCount (i1 + 1) s1 = Inr s'"
      by (subst (asm) lawn_outer_log.simps) (auto split: sum.splits)
    have "log_ok s1" using a "1.prems"(2) by (rule lawn_forward_log_ok)
    with "1.IH" [OF True a refl b] show ?thesis .
  qed
qed

lemma log_ok_start: "log_ok (before, 0, [])"
  by (simp add: log_ok_def dark_light_swaps_def)

lemma sort_left_to_right_log_ok:
  assumes "sort_left_to_right_log before = Inr (before', r, swaps)"
  shows "dark_light_swaps swaps \<and> swap_count r = of_nat (length swaps)"
proof -
  from assms have "ltr_outer_log (total_count before) (light_count before) 0 (before, 0, []) =
      Inr (before', swap_count r, swaps)"
    by (auto simp: sort_left_to_right_log_def split: sum.splits if_splits)
  from ltr_outer_log_ok [OF this log_ok_start] show ?thesis
    by (simp add: log_ok_def)
qed

lemma sort_lawnmower_log_ok:
  assumes "sort_lawnmower_log before = Inr (before', r, swaps)"
  shows "dark_light_swaps swaps \<and> swap_count r = of_nat (length swaps)"
proof -
  from assms have "lawn_outer_log (total_count before) (light_count before) 0 (before, 0, []) =
      Inr (before', swap_count r, swaps)"
    by (auto simp: sort_lawnmower_log_def split: sum.splits if_splits)
  from lawn_outer_log_ok [OF this log_ok_start] show ?thesis
    by (simp add: log_ok_def)
qed

subsection \<open>The rows that exist\<close>

lemma length_ctor_loop: "length (ctor_loop cs i) = length cs"
proof (induction cs i rule: ctor_loop.induct)
  case (1 cs i)
  show ?case
  proof (cases "i < length cs")
    case True
    with "1.IH" show ?thesis by (simp add: ctor_loop.simps [of cs i])
  next
    case False
    then show ?thesis by (simp add: ctor_loop.simps [of cs i])
  qed
qed

lemma ctor_row_invariant:
  assumes "disk_state_ctor n = Inr cs"
  shows "row_invariant cs"
proof -
  from assms have cs: "cs = ctor_loop (replicate (unat (n * 2)) DISK_LIGHT) 1"
    and pos: "0 < unat (n * 2) div 2"
    by (auto simp: disk_state_ctor_def Let_def dark_count_def total_count_def split: if_splits)
  have "unat (n * 2) = unat n * 2 mod 2 ^ 64"
    by (simp add: unat_word_ariths)
  moreover have "even (unat n * 2 mod 2 ^ 64)"
    by (rule dvd_mod) simp_all
  ultimately have "even (unat (n * 2))"
    by simp
  with pos show ?thesis
    by (auto simp: row_invariant_def total_count_def cs length_ctor_loop)
qed

lemma swap_length: "swap cs i = Inr cs' \<Longrightarrow> length cs' = length cs"
  by (auto simp: swap_def Let_def split: if_splits)

lemma swap_row_invariant: "swap cs i = Inr cs' \<Longrightarrow> row_invariant cs \<Longrightarrow> row_invariant cs'"
  by (simp add: row_invariant_def total_count_def swap_length)

text \<open>
  The restriction to these rows matters: on a list of three disks, which no \<open>disk_state\<close>
  holds, \<open>is_alternating\<close> looks at the first two only, and the sorted list fails
  \<open>is_sorted\<close>.
\<close>

lemma odd_length_list_not_grouped:
  "is_alternating [DISK_LIGHT, DISK_DARK, DISK_LIGHT] = Inr True \<and>
   sort_left_to_right [DISK_LIGHT, DISK_DARK, DISK_LIGHT] =
     Inr ([DISK_LIGHT, DISK_LIGHT, DISK_DARK],
          \<lparr>after = [DISK_LIGHT, DISK_LIGHT, DISK_DARK], swap_count = 1\<rparr>) \<and>
   is_sorted [DISK_LIGHT, DISK_LIGHT, DISK_DARK] = Inr False"
  by (intro conjI; code_simp)

subsection \<open>Both sorters on an alternating row, and on the row they return\<close>

lemma sort_left_to_right_log_ld:
  assumes "0 < k"
  shows "\<exists>swaps. sort_left_to_right_log (ld k) =
     Inr (grouped k, \<lparr>after = grouped k, swap_count = of_nat (tri k)\<rparr>, swaps)"
proof -
  from sort_left_to_right_ld [OF assms] sort_left_to_right_log_erase [of "ld k"]
  show ?thesis
    by (cases "sort_left_to_right_log (ld k)") auto
qed

lemma sort_lawnmower_log_ld:
  assumes "0 < k"
  shows "\<exists>swaps. sort_lawnmower_log (ld k) =
     Inr (grouped k, \<lparr>after = grouped k, swap_count = of_nat (tri k)\<rparr>, swaps)"
proof -
  from sort_lawnmower_ld [OF assms] sort_lawnmower_log_erase [of "ld k"]
  show ?thesis
    by (cases "sort_lawnmower_log (ld k)") auto
qed

lemma sort_left_to_right_grouped:
  "2 \<le> k \<Longrightarrow> sort_left_to_right (grouped k) = Inl Assert_is_alternating"
  by (simp add: sort_left_to_right_def is_alternating_grouped)

lemma sort_lawnmower_grouped:
  "2 \<le> k \<Longrightarrow> sort_lawnmower (grouped k) = Inl Assert_is_alternating"
  by (simp add: sort_lawnmower_def is_alternating_grouped)

lemma sort_left_to_right_log_grouped:
  "2 \<le> k \<Longrightarrow> sort_left_to_right_log (grouped k) = Inl Assert_is_alternating"
  by (simp add: sort_left_to_right_log_def is_alternating_grouped)

lemma sort_lawnmower_log_grouped:
  "2 \<le> k \<Longrightarrow> sort_lawnmower_log (grouped k) = Inl Assert_is_alternating"
  by (simp add: sort_lawnmower_log_def is_alternating_grouped)

subsection \<open>The algorithm of section 4.3 on an alternating row\<close>

lemma ref_forward_sweep_step:
  "j < size_sub totalCount i \<Longrightarrow> forward_step s j = Inr s' \<Longrightarrow>
   ref_forward_sweep totalCount i j s = ref_forward_sweep totalCount i (Suc j) s'"
  by (subst ref_forward_sweep.simps) simp

lemma ref_forward_sweep_fail:
  "j < size_sub totalCount i \<Longrightarrow> forward_step s j = Inl e \<Longrightarrow>
   ref_forward_sweep totalCount i j s = Inl e"
  by (subst ref_forward_sweep.simps) simp

lemma forward_step_last_dark:
  "length pre = j \<Longrightarrow> forward_step (pre @ [DISK_DARK], n) j = Inl Assert_is_index"
  by (auto simp: forward_step_def dark_then_light_def nth_append)

text \<open>
  A forward sweep that carries a dark disk up to the last index of the row asks for the disk
  after it.
\<close>

lemma ref_forward_sweep_overrun:
  "length pre = j \<Longrightarrow> size_sub totalCount i = Suc (j + length w) \<Longrightarrow>
   ref_forward_sweep totalCount i j (pre @ DISK_DARK # w, n) = Inl Assert_is_index"
proof (induction w arbitrary: pre j n)
  case Nil
  have "forward_step (pre @ [DISK_DARK], n) j = Inl Assert_is_index"
    using Nil.prems(1) by (rule forward_step_last_dark)
  with Nil.prems show ?case
    by (intro ref_forward_sweep_fail) simp_all
next
  case (Cons c w)
  have len: "length (pre @ [c]) = Suc j"
    using Cons.prems by simp
  have bound: "size_sub totalCount i = Suc (Suc j + length w)"
    using Cons.prems by simp
  have lt: "j < size_sub totalCount i"
    using Cons.prems by simp
  show ?case
  proof (cases c)
    case DISK_LIGHT
    have "forward_step (pre @ DISK_DARK # DISK_LIGHT # w, n) j =
          Inr (pre @ DISK_LIGHT # DISK_DARK # w, n + 1)"
      using Cons.prems(1) by (rule forward_step_hit)
    then have step: "forward_step (pre @ DISK_DARK # c # w, n) j =
          Inr ((pre @ [c]) @ DISK_DARK # w, n + 1)"
      using DISK_LIGHT by simp
    have "ref_forward_sweep totalCount i j (pre @ DISK_DARK # c # w, n) =
          ref_forward_sweep totalCount i (Suc j) ((pre @ [c]) @ DISK_DARK # w, n + 1)"
      using lt step by (rule ref_forward_sweep_step)
    also have "\<dots> = Inl Assert_is_index"
      by (rule Cons.IH [OF len bound])
    finally show ?thesis .
  next
    case DISK_DARK
    have "forward_step (pre @ DISK_DARK # c # w, n) j = Inr (pre @ DISK_DARK # c # w, n)"
      using Cons.prems(1) DISK_DARK
      by (intro forward_step_dark_dark) (simp_all add: nth_append)
    then have step: "forward_step (pre @ DISK_DARK # c # w, n) j =
          Inr ((pre @ [c]) @ DISK_DARK # w, n)"
      using DISK_DARK by simp
    have "ref_forward_sweep totalCount i j (pre @ DISK_DARK # c # w, n) =
          ref_forward_sweep totalCount i (Suc j) ((pre @ [c]) @ DISK_DARK # w, n)"
      using lt step by (rule ref_forward_sweep_step)
    also have "\<dots> = Inl Assert_is_index"
      by (rule Cons.IH [OF len bound])
    finally show ?thesis .
  qed
qed

lemma sort_lawnmower_reference_ld:
  assumes "2 \<le> k"
  shows "sort_lawnmower_reference (ld k) = Inl Assert_is_index"
proof -
  from assms obtain m where k: "k = Suc m"
    by (cases k) simp_all
  have "ref_forward_sweep (2 * k) 0 (Suc 0) ([DISK_LIGHT] @ DISK_DARK # ld m, 0) =
        Inl Assert_is_index"
    using k by (intro ref_forward_sweep_overrun) (simp_all add: size_sub_le)
  then have sweep: "ref_forward_sweep (2 * k) 0 (Suc 0) (ld k, 0) = Inl Assert_is_index"
    using k by simp
  have head: "0 < k div 2"
    using assms by simp
  have "ref_outer (2 * k) k 0 (ld k, 0) = Inl Assert_is_index"
    using head sweep by (subst ref_outer.simps) simp
  moreover have "is_alternating (ld k) = Inr True"
    using assms by (intro is_alternating_ld) simp
  ultimately show ?thesis
    by (simp add: sort_lawnmower_reference_def total_count_def light_count_def dark_count_def)
qed

subsection \<open>The sorters on the caller's object and the sorters on its value\<close>

text \<open>
  Run on the object at an address, every loop does to that object what the plain loop does
  to its value, and leaves the rest of the store alone.
\<close>

lemma put_object: "put (fst s) a (object a s) = s"
  by (cases s) (simp add: put_def object_def)

lemma put_put: "put (fst (put mem a s)) a = put mem a"
  by (cases s) (auto simp: put_def)

lemma object_put: "object a (put mem a s) = s"
  by (cases s) (simp add: put_def object_def)

lemma forward_step_at_object:
  "forward_step_at a s j = (case forward_step (object a s) j of Inl e \<Rightarrow> Inl e | Inr x \<Rightarrow> Inr (put (fst s) a x))"
  by (cases s)
     (simp add: forward_step_at_def forward_step_def put_def object_def split: sum.splits)

lemma backward_step_at_object:
  "backward_step_at a s j = (case backward_step (object a s) j of Inl e \<Rightarrow> Inl e | Inr x \<Rightarrow> Inr (put (fst s) a x))"
  by (cases s)
     (simp add: backward_step_at_def backward_step_def put_def object_def split: sum.splits)

lemma ltr_inner_at_object:
  "ltr_inner_at a totalCount i j s =
   (case ltr_inner totalCount i j (object a s) of Inl e \<Rightarrow> Inl e | Inr x \<Rightarrow> Inr (put (fst s) a x))"
proof (induction a totalCount i j s rule: ltr_inner_at.induct)
  case (1 a totalCount i j s)
  show ?case
  proof (cases "j < size_sub (size_sub totalCount i) 1")
    case False
    then show ?thesis
      by (simp add: ltr_inner.simps [of _ _ j] ltr_inner_at.simps [of _ _ _ j] put_object)
  next
    case True
    show ?thesis
    proof (cases "forward_step (object a s) j")
      case (Inl e)
      then have "forward_step_at a s j = Inl e"
        by (simp add: forward_step_at_object)
      with True Inl show ?thesis
        by (simp add: ltr_inner.simps [of _ _ j] ltr_inner_at.simps [of _ _ _ j])
    next
      case (Inr s1)
      then have step: "forward_step_at a s j = Inr (put (fst s) a s1)"
        by (simp add: forward_step_at_object)
      from "1.IH" [OF True step]
      have "ltr_inner_at a totalCount i (j + 1) (put (fst s) a s1) =
            (case ltr_inner totalCount i (j + 1) s1 of Inl e \<Rightarrow> Inl e | Inr x \<Rightarrow> Inr (put (fst s) a x))"
        by (simp add: object_put put_put cong: sum.case_cong)
      with True Inr step show ?thesis
        by (simp add: ltr_inner.simps [of _ _ j] ltr_inner_at.simps [of _ _ _ j])
    qed
  qed
qed

lemma ltr_outer_at_object:
  "ltr_outer_at a totalCount lightCount i s =
   (case ltr_outer totalCount lightCount i (object a s) of Inl e \<Rightarrow> Inl e | Inr x \<Rightarrow> Inr (put (fst s) a x))"
proof (induction a totalCount lightCount i s rule: ltr_outer_at.induct)
  case (1 a totalCount lightCount i s)
  show ?case
  proof (cases "i < lightCount")
    case False
    then show ?thesis
      by (simp add: ltr_outer.simps [of _ _ i] ltr_outer_at.simps [of _ _ _ i] put_object)
  next
    case True
    show ?thesis
    proof (cases "ltr_inner totalCount i (i + 1) (object a s)")
      case (Inl e)
      then have "ltr_inner_at a totalCount i (i + 1) s = Inl e"
        by (simp add: ltr_inner_at_object)
      with True Inl show ?thesis
        by (simp add: ltr_outer.simps [of _ _ i] ltr_outer_at.simps [of _ _ _ i])
    next
      case (Inr s1)
      then have step: "ltr_inner_at a totalCount i (i + 1) s = Inr (put (fst s) a s1)"
        by (simp add: ltr_inner_at_object)
      from "1.IH" [OF True step]
      have "ltr_outer_at a totalCount lightCount (i + 1) (put (fst s) a s1) =
            (case ltr_outer totalCount lightCount (i + 1) s1 of Inl e \<Rightarrow> Inl e | Inr x \<Rightarrow> Inr (put (fst s) a x))"
        by (simp add: object_put put_put cong: sum.case_cong)
      with True Inr step show ?thesis
        by (simp add: ltr_outer.simps [of _ _ i] ltr_outer_at.simps [of _ _ _ i])
    qed
  qed
qed

lemma lawn_backward_at_object:
  "lawn_backward_at a i j s =
   (case lawn_backward i j (object a s) of Inl e \<Rightarrow> Inl e | Inr x \<Rightarrow> Inr (put (fst s) a x))"
proof (induction a i j s rule: lawn_backward_at.induct)
  case (1 a i j s)
  show ?case
  proof (cases "i < j")
    case False
    then show ?thesis
      by (simp add: lawn_backward.simps [of _ j] lawn_backward_at.simps [of _ _ j] put_object)
  next
    case True
    show ?thesis
    proof (cases "backward_step (object a s) j")
      case (Inl e)
      then have "backward_step_at a s j = Inl e"
        by (simp add: backward_step_at_object)
      with True Inl show ?thesis
        by (simp add: lawn_backward.simps [of _ j] lawn_backward_at.simps [of _ _ j])
    next
      case (Inr s1)
      then have step: "backward_step_at a s j = Inr (put (fst s) a s1)"
        by (simp add: backward_step_at_object)
      from "1.IH" [OF True step]
      have "lawn_backward_at a i (size_sub j 1) (put (fst s) a s1) =
            (case lawn_backward i (size_sub j 1) s1 of Inl e \<Rightarrow> Inl e | Inr x \<Rightarrow> Inr (put (fst s) a x))"
        by (simp add: object_put put_put cong: sum.case_cong)
      with True Inr step show ?thesis
        by (simp add: lawn_backward.simps [of _ j] lawn_backward_at.simps [of _ _ j])
    qed
  qed
qed

lemma lawn_forward_at_object:
  "lawn_forward_at a totalCount i j s =
   (case lawn_forward totalCount i j (object a s) of Inl e \<Rightarrow> Inl e | Inr x \<Rightarrow> Inr ((\<lambda>(i', s'). (i', put (fst s) a s')) x))"
proof (induction a totalCount i j s rule: lawn_forward_at.induct)
  case (1 a totalCount i j s)
  show ?case
  proof (cases "j < size_sub totalCount i")
    case False
    then show ?thesis
      by (simp add: lawn_forward.simps [of _ i j] lawn_forward_at.simps [of _ _ i j] put_object)
  next
    case True
    show ?thesis
    proof (cases "forward_step (object a s) j")
      case (Inl e)
      then have "forward_step_at a s j = Inl e"
        by (simp add: forward_step_at_object)
      with True Inl show ?thesis
        by (simp add: lawn_forward.simps [of _ i j] lawn_forward_at.simps [of _ _ i j])
    next
      case s1: (Inr s1)
      then have f: "forward_step_at a s j = Inr (put (fst s) a s1)"
        by (simp add: forward_step_at_object)
      have b: "lawn_backward_at a (i + 1) (size_sub (size_sub totalCount (i + 1)) 1)
                 (put (fst s) a s1) =
               (case lawn_backward (i + 1) (size_sub (size_sub totalCount (i + 1)) 1) s1 of Inl e \<Rightarrow> Inl e | Inr x \<Rightarrow> Inr (put (fst s) a x))"
        by (simp add: lawn_backward_at_object object_put put_put cong: sum.case_cong)
      show ?thesis
      proof (cases "lawn_backward (i + 1) (size_sub (size_sub totalCount (i + 1)) 1) s1")
        case (Inl e)
        with True s1 f b show ?thesis
          by (simp add: lawn_forward.simps [of _ i j] lawn_forward_at.simps [of _ _ i j])
      next
        case (Inr s2)
        with b have b': "lawn_backward_at a (i + 1) (size_sub (size_sub totalCount (i + 1)) 1)
                 (put (fst s) a s1) = Inr (put (fst s) a s2)"
          by simp
        from "1.IH" [OF True f b']
        have "lawn_forward_at a totalCount (i + 1) (j + 1) (put (fst s) a s2) =
              (case lawn_forward totalCount (i + 1) (j + 1) s2 of Inl e \<Rightarrow> Inl e | Inr x \<Rightarrow> Inr ((\<lambda>(i', s'). (i', put (fst s) a s')) x))"
          by (simp add: object_put put_put cong: sum.case_cong)
        with True s1 f Inr b' show ?thesis
          by (simp add: lawn_forward.simps [of _ i j] lawn_forward_at.simps [of _ _ i j])
      qed
    qed
  qed
qed

lemma lawn_outer_at_object:
  "lawn_outer_at a totalCount lightCount i s =
   (case lawn_outer totalCount lightCount i (object a s) of Inl e \<Rightarrow> Inl e | Inr x \<Rightarrow> Inr (put (fst s) a x))"
proof (induction a totalCount lightCount i s rule: lawn_outer_at.induct)
  case (1 a totalCount lightCount i s)
  show ?case
  proof (cases "i < lightCount div 2")
    case False
    then show ?thesis
      by (simp add: lawn_outer.simps [of _ _ i] lawn_outer_at.simps [of _ _ _ i] put_object)
  next
    case True
    show ?thesis
    proof (cases "lawn_forward totalCount i (i + 1) (object a s)")
      case (Inl e)
      then have "lawn_forward_at a totalCount i (i + 1) s = Inl e"
        by (simp add: lawn_forward_at_object)
      with True Inl show ?thesis
        by (simp add: lawn_outer.simps [of _ _ i] lawn_outer_at.simps [of _ _ _ i])
    next
      case (Inr p)
      obtain i' s1 where p: "p = (i', s1)" by (cases p)
      with Inr have step: "lawn_forward_at a totalCount i (i + 1) s = Inr (i', put (fst s) a s1)"
        by (simp add: lawn_forward_at_object)
      from "1.IH" [OF True step refl]
      have "lawn_outer_at a totalCount lightCount (i' + 1) (put (fst s) a s1) =
            (case lawn_outer totalCount lightCount (i' + 1) s1 of Inl e \<Rightarrow> Inl e | Inr x \<Rightarrow> Inr (put (fst s) a x))"
        by (simp add: object_put put_put cong: sum.case_cong)
      with True Inr p step show ?thesis
        by (simp add: lawn_outer.simps [of _ _ i] lawn_outer_at.simps [of _ _ _ i])
    qed
  qed
qed

lemma sort_left_to_right_at_object:
  "sort_left_to_right_at a mem =
   (case sort_left_to_right (mem a) of Inl e \<Rightarrow> Inl e | Inr x \<Rightarrow> Inr ((\<lambda>(cs, r). (mem(a := cs), r)) x))"
proof -
  have "ltr_outer_at a (total_count (mem a)) (light_count (mem a)) 0 (mem, 0) =
        (case ltr_outer (total_count (mem a)) (light_count (mem a)) 0 (mem a, 0) of Inl e \<Rightarrow> Inl e | Inr x \<Rightarrow> Inr (put mem a x))"
    using ltr_outer_at_object [of a "total_count (mem a)" "light_count (mem a)" 0 "(mem, 0)"]
    by (simp add: object_def cong: sum.case_cong)
  then show ?thesis
    by (auto simp: sort_left_to_right_at_def sort_left_to_right_def put_def split: sum.splits)
qed

lemma sort_lawnmower_at_object:
  "sort_lawnmower_at a mem =
   (case sort_lawnmower (mem a) of Inl e \<Rightarrow> Inl e | Inr x \<Rightarrow> Inr ((\<lambda>(cs, r). (mem(a := cs), r)) x))"
proof -
  have "lawn_outer_at a (total_count (mem a)) (light_count (mem a)) 0 (mem, 0) =
        (case lawn_outer (total_count (mem a)) (light_count (mem a)) 0 (mem a, 0) of Inl e \<Rightarrow> Inl e | Inr x \<Rightarrow> Inr (put mem a x))"
    using lawn_outer_at_object [of a "total_count (mem a)" "light_count (mem a)" 0 "(mem, 0)"]
    by (simp add: object_def cong: sum.case_cong)
  then show ?thesis
    by (auto simp: sort_lawnmower_at_def sort_lawnmower_def put_def split: sum.splits)
qed

lemma sort_left_to_right_at_frame:
  assumes "sort_left_to_right_at before mem = Inr (mem', r)"
  shows "sort_left_to_right (mem before) = Inr (mem' before, r) \<and>
         after r = mem' before \<and> (\<forall>a. a \<noteq> before \<longrightarrow> mem' a = mem a)"
proof -
  from assms sort_left_to_right_at_object [of before mem]
  obtain cs where run: "sort_left_to_right (mem before) = Inr (cs, r)"
    and mem': "mem' = mem(before := cs)"
    by (auto split: sum.splits)
  from run have "after r = cs"
    by (auto simp: sort_left_to_right_def split: sum.splits if_splits)
  with run mem' show ?thesis by simp
qed

lemma sort_lawnmower_at_frame:
  assumes "sort_lawnmower_at before mem = Inr (mem', r)"
  shows "sort_lawnmower (mem before) = Inr (mem' before, r) \<and>
         after r = mem' before \<and> (\<forall>a. a \<noteq> before \<longrightarrow> mem' a = mem a)"
proof -
  from assms sort_lawnmower_at_object [of before mem]
  obtain cs where run: "sort_lawnmower (mem before) = Inr (cs, r)"
    and mem': "mem' = mem(before := cs)"
    by (auto split: sum.splits)
  from run have "after r = cs"
    by (auto simp: sort_lawnmower_def split: sum.splits if_splits)
  with run mem' show ?thesis by simp
qed

lemma row_invariant_grouped: "0 < k \<Longrightarrow> row_invariant (grouped k)"
  by (simp add: row_invariant_def total_count_def)

lemma lights_grouped: "length (filter (\<lambda>c. c = DISK_LIGHT) (grouped k)) = k"
  by (simp add: grouped_def)

section \<open>The claims\<close>

text \<open>
  Claim C1. For every row that satisfies \<open>is_alternating()\<close>, \<open>sort_left_to_right\<close> and
  \<open>sort_lawnmower\<close> both return a result, and the row of that result satisfies
  \<open>is_sorted()\<close>: it is the grouped row of the input's size, with all the light disks of
  the input first and its dark disks after them. The rows are those that exist: a positive,
  even number of disks.
\<close>

theorem sorters_group_alternating_rows:
  assumes "row_invariant before" "is_alternating before = Inr True"
  shows "(\<exists>before' r. sort_left_to_right before = Inr (before', r) \<and>
            before' = after r \<and>
            after r = grouped (light_count before) \<and>
            total_count (after r) = total_count before \<and>
            length (filter (\<lambda>c. c = DISK_LIGHT) (after r)) =
              length (filter (\<lambda>c. c = DISK_LIGHT) before) \<and>
            row_invariant (after r) \<and>
            is_sorted (after r) = Inr True) \<and>
         (\<exists>before' r. sort_lawnmower before = Inr (before', r) \<and>
            before' = after r \<and>
            after r = grouped (light_count before) \<and>
            total_count (after r) = total_count before \<and>
            length (filter (\<lambda>c. c = DISK_LIGHT) (after r)) =
              length (filter (\<lambda>c. c = DISK_LIGHT) before) \<and>
            row_invariant (after r) \<and>
            is_sorted (after r) = Inr True)"
proof -
  let ?k = "total_count before div 2"
  let ?r = "\<lparr>after = grouped ?k, swap_count = of_nat (tri ?k)\<rparr>"
  from alternating_row [OF assms] have k: "0 < ?k" and row: "before = ld ?k"
    by simp_all
  have lc: "light_count before = ?k"
    by (simp add: light_count_def dark_count_def)
  have len: "total_count (grouped ?k) = total_count before"
    using assms(1) by (simp add: total_count_def row_invariant_def)
  have "length (filter (\<lambda>c. c = DISK_LIGHT) (ld ?k)) = ?k"
    by (rule lights_ld)
  with row have lights: "length (filter (\<lambda>c. c = DISK_LIGHT) (grouped ?k)) =
      length (filter (\<lambda>c. c = DISK_LIGHT) before)"
    by (simp add: lights_grouped)
  have inv: "row_invariant (grouped ?k)"
    using k by (rule row_invariant_grouped)
  have srt: "is_sorted (grouped ?k) = Inr True"
    by (rule is_sorted_grouped)
  have "sort_left_to_right (ld ?k) = Inr (grouped ?k, ?r)"
    using k by (rule sort_left_to_right_ld)
  with row have s1: "sort_left_to_right before = Inr (grouped ?k, ?r)"
    by simp
  have "sort_lawnmower (ld ?k) = Inr (grouped ?k, ?r)"
    using k by (rule sort_lawnmower_ld)
  with row have s2: "sort_lawnmower before = Inr (grouped ?k, ?r)"
    by simp
  show ?thesis
    using s1 s2 lc len lights inv srt by simp
qed

theorem sorters_group_alternating_rows_witness:
  "row_invariant [DISK_LIGHT, DISK_DARK, DISK_LIGHT, DISK_DARK] \<and>
   is_alternating [DISK_LIGHT, DISK_DARK, DISK_LIGHT, DISK_DARK] = Inr True \<and>
   (\<exists>before' r. sort_left_to_right [DISK_LIGHT, DISK_DARK, DISK_LIGHT, DISK_DARK] =
        Inr (before', r) \<and>
        after r = [DISK_LIGHT, DISK_LIGHT, DISK_DARK, DISK_DARK] \<and>
        is_sorted (after r) = Inr True) \<and>
   (\<exists>before' r. sort_lawnmower [DISK_LIGHT, DISK_DARK, DISK_LIGHT, DISK_DARK] =
        Inr (before', r) \<and>
        after r = [DISK_LIGHT, DISK_LIGHT, DISK_DARK, DISK_DARK] \<and>
        is_sorted (after r) = Inr True)"
proof -
  let ?row = "[DISK_LIGHT, DISK_DARK, DISK_LIGHT, DISK_DARK]"
  have inv: "row_invariant ?row"
    by (simp add: row_invariant_def total_count_def)
  have alt: "is_alternating ?row = Inr True"
    by code_simp
  have g: "grouped (light_count ?row) = [DISK_LIGHT, DISK_LIGHT, DISK_DARK, DISK_DARK]"
    by code_simp
  from sorters_group_alternating_rows [OF inv alt] inv alt show ?thesis
    unfolding g by blast
qed


text \<open>
  Claim C3. For every \<open>k \<ge> 1\<close>, the two sorters report the same number of swaps on the
  alternating row of \<open>2k\<close> disks. The number is \<open>k (k - 1) / 2\<close>, in the 32 bits of the
  counter.
\<close>

theorem sorters_count_the_same_swaps:
  assumes "1 \<le> k" "total_count before = 2 * k" "is_alternating before = Inr True"
  shows "\<exists>b1 r1 b2 r2.
           sort_left_to_right before = Inr (b1, r1) \<and>
           sort_lawnmower before = Inr (b2, r2) \<and>
           swap_count r1 = swap_count r2 \<and>
           swap_count r1 = of_nat (k * (k - 1) div 2)"
proof -
  from assms(1,2) have inv: "row_invariant before"
    by (simp add: row_invariant_def)
  from alternating_row [OF inv assms(3)] assms(2) have row: "before = ld k"
    by simp
  have "sort_left_to_right (ld k) =
        Inr (grouped k, \<lparr>after = grouped k, swap_count = of_nat (tri k)\<rparr>)"
    using assms(1) by (intro sort_left_to_right_ld) simp
  moreover have "sort_lawnmower (ld k) =
        Inr (grouped k, \<lparr>after = grouped k, swap_count = of_nat (tri k)\<rparr>)"
    using assms(1) by (intro sort_lawnmower_ld) simp
  ultimately show ?thesis
    using row by (simp add: tri_closed)
qed

theorem sorters_count_the_same_swaps_witness:
  "(1::nat) \<le> 3 \<and>
   total_count [DISK_LIGHT, DISK_DARK, DISK_LIGHT, DISK_DARK, DISK_LIGHT, DISK_DARK] = 2 * 3 \<and>
   is_alternating [DISK_LIGHT, DISK_DARK, DISK_LIGHT, DISK_DARK, DISK_LIGHT, DISK_DARK] =
     Inr True \<and>
   (\<exists>b1 r1 b2 r2.
      sort_left_to_right [DISK_LIGHT, DISK_DARK, DISK_LIGHT, DISK_DARK, DISK_LIGHT, DISK_DARK] =
        Inr (b1, r1) \<and>
      sort_lawnmower [DISK_LIGHT, DISK_DARK, DISK_LIGHT, DISK_DARK, DISK_LIGHT, DISK_DARK] =
        Inr (b2, r2) \<and>
      swap_count r1 = swap_count r2 \<and> swap_count r1 = 3)"
proof -
  let ?row = "[DISK_LIGHT, DISK_DARK, DISK_LIGHT, DISK_DARK, DISK_LIGHT, DISK_DARK]"
  have k: "(1::nat) \<le> 3" by simp
  have len: "total_count ?row = 2 * 3"
    by (simp add: total_count_def)
  have alt: "is_alternating ?row = Inr True"
    by code_simp
  from sorters_count_the_same_swaps [OF k len alt] k len alt show ?thesis
    by simp
qed

text \<open>
  Claim C4 as stated, that the constructor gives for every \<open>k \<ge> 1\<close> a row of \<open>2k\<close> disks
  that is alternating and not sorted, fails for \<open>k = 1\<close>: the row \<open>L D\<close> passes
  \<open>is_sorted()\<close>. It also fails where \<open>light_count * 2\<close> leaves the range of \<open>size_t\<close>:
  for \<open>k = 2 ^ 63\<close> the product is 0 and the constructor's assertion fails.
\<close>

theorem ctor_one_pair_counterexample:
  "disk_state_ctor 1 = Inr [DISK_LIGHT, DISK_DARK] \<and>
   is_sorted [DISK_LIGHT, DISK_DARK] = Inr True \<and>
   disk_state_ctor (2 ^ 63) = Inl Assert_dark_count"
proof (intro conjI)
  show "disk_state_ctor 1 = Inr [DISK_LIGHT, DISK_DARK]" by code_simp
  show "is_sorted [DISK_LIGHT, DISK_DARK] = Inr True" by code_simp
  show "disk_state_ctor (2 ^ 63) = Inl Assert_dark_count" by code_simp
qed

text \<open>
  Claim C4, amended. For every \<open>k\<close> with \<open>1 \<le> k < 2 ^ 63\<close> the constructor gives a row
  with \<open>total_count() == 2k\<close> and \<open>is_alternating() == true\<close>; \<open>is_sorted()\<close> is false
  on it when \<open>k \<ge> 2\<close> and true when \<open>k = 1\<close>.
\<close>

theorem ctor_builds_alternating_row:
  assumes "1 \<le> unat n" "unat n < 2 ^ 63"
  shows "\<exists>cs. disk_state_ctor n = Inr cs \<and> total_count cs = 2 * unat n \<and>
           is_alternating cs = Inr True \<and> is_sorted cs = Inr (unat n = 1)"
proof -
  have ctor: "disk_state_ctor n = Inr (ld (unat n))"
    using assms by (intro disk_state_ctor_ld) simp_all
  have alt: "is_alternating (ld (unat n)) = Inr True"
    using assms(1) by (intro is_alternating_ld) simp
  have srt: "is_sorted (ld (unat n)) = Inr (unat n = 1)"
  proof (cases "unat n = 1")
    case True
    then show ?thesis using is_sorted_ld_1 by simp
  next
    case False
    with assms(1) have "2 \<le> unat n" by simp
    from is_sorted_ld_ge2 [OF this] False show ?thesis by simp
  qed
  show ?thesis
    using ctor alt srt by (simp add: total_count_def)
qed

theorem ctor_builds_alternating_row_witness:
  "1 \<le> unat (3 :: 64 word) \<and> unat (3 :: 64 word) < 2 ^ 63 \<and>
   (\<exists>cs. disk_state_ctor 3 = Inr cs \<and> total_count cs = 6 \<and>
      is_alternating cs = Inr True \<and> is_sorted cs = Inr False)"
proof -
  have a: "1 \<le> unat (3 :: 64 word)" by simp
  have b: "unat (3 :: 64 word) < 2 ^ 63" by simp
  from ctor_builds_alternating_row [OF a b] a b show ?thesis by simp
qed

text \<open>
  Claim C5 says that \<open>operator==\<close> holds exactly for identical sequences, rows of
  different lengths included. The source compares the left row with as long a prefix of the
  right one and never looks at the lengths: the row \<open>L D\<close> compares equal to the row
  \<open>L D L D\<close>, and with the operands exchanged the comparison reads past the end of the
  shorter row.
\<close>

theorem operator_eq_ignores_the_tail:
  "operator_eq [DISK_LIGHT, DISK_DARK] [DISK_LIGHT, DISK_DARK, DISK_LIGHT, DISK_DARK] = Inr True \<and>
   [DISK_LIGHT, DISK_DARK] \<noteq> [DISK_LIGHT, DISK_DARK, DISK_LIGHT, DISK_DARK] \<and>
   operator_eq [DISK_LIGHT, DISK_DARK, DISK_LIGHT, DISK_DARK] [DISK_LIGHT, DISK_DARK] =
     Inl Undefined_read"
  by (simp add: operator_eq_def)

text \<open>
  Claim C6. The examples of the specification: on the alternating row of 1, 3 and 4 pairs,
  both sorters count 0, 3 and 6 swaps and leave the rows that print as \<open>L D\<close>,
  \<open>L L L D D D\<close> and \<open>L L L L D D D D\<close>.
\<close>

theorem spec_examples:
  "disk_state_ctor 1 = Inr [DISK_LIGHT, DISK_DARK] \<and>
   sort_left_to_right [DISK_LIGHT, DISK_DARK] =
     Inr ([DISK_LIGHT, DISK_DARK], \<lparr>after = [DISK_LIGHT, DISK_DARK], swap_count = 0\<rparr>) \<and>
   sort_lawnmower [DISK_LIGHT, DISK_DARK] =
     Inr ([DISK_LIGHT, DISK_DARK], \<lparr>after = [DISK_LIGHT, DISK_DARK], swap_count = 0\<rparr>) \<and>
   to_string [DISK_LIGHT, DISK_DARK] = ''L D'' \<and>
   disk_state_ctor 3 =
     Inr [DISK_LIGHT, DISK_DARK, DISK_LIGHT, DISK_DARK, DISK_LIGHT, DISK_DARK] \<and>
   sort_left_to_right [DISK_LIGHT, DISK_DARK, DISK_LIGHT, DISK_DARK, DISK_LIGHT, DISK_DARK] =
     Inr ([DISK_LIGHT, DISK_LIGHT, DISK_LIGHT, DISK_DARK, DISK_DARK, DISK_DARK],
          \<lparr>after = [DISK_LIGHT, DISK_LIGHT, DISK_LIGHT, DISK_DARK, DISK_DARK, DISK_DARK],
           swap_count = 3\<rparr>) \<and>
   sort_lawnmower [DISK_LIGHT, DISK_DARK, DISK_LIGHT, DISK_DARK, DISK_LIGHT, DISK_DARK] =
     Inr ([DISK_LIGHT, DISK_LIGHT, DISK_LIGHT, DISK_DARK, DISK_DARK, DISK_DARK],
          \<lparr>after = [DISK_LIGHT, DISK_LIGHT, DISK_LIGHT, DISK_DARK, DISK_DARK, DISK_DARK],
           swap_count = 3\<rparr>) \<and>
   to_string [DISK_LIGHT, DISK_LIGHT, DISK_LIGHT, DISK_DARK, DISK_DARK, DISK_DARK] =
     ''L L L D D D'' \<and>
   disk_state_ctor 4 =
     Inr [DISK_LIGHT, DISK_DARK, DISK_LIGHT, DISK_DARK, DISK_LIGHT, DISK_DARK,
          DISK_LIGHT, DISK_DARK] \<and>
   sort_left_to_right [DISK_LIGHT, DISK_DARK, DISK_LIGHT, DISK_DARK, DISK_LIGHT, DISK_DARK,
                       DISK_LIGHT, DISK_DARK] =
     Inr ([DISK_LIGHT, DISK_LIGHT, DISK_LIGHT, DISK_LIGHT,
           DISK_DARK, DISK_DARK, DISK_DARK, DISK_DARK],
          \<lparr>after = [DISK_LIGHT, DISK_LIGHT, DISK_LIGHT, DISK_LIGHT,
                    DISK_DARK, DISK_DARK, DISK_DARK, DISK_DARK],
           swap_count = 6\<rparr>) \<and>
   sort_lawnmower [DISK_LIGHT, DISK_DARK, DISK_LIGHT, DISK_DARK, DISK_LIGHT, DISK_DARK,
                   DISK_LIGHT, DISK_DARK] =
     Inr ([DISK_LIGHT, DISK_LIGHT, DISK_LIGHT, DISK_LIGHT,
           DISK_DARK, DISK_DARK, DISK_DARK, DISK_DARK],
          \<lparr>after = [DISK_LIGHT, DISK_LIGHT, DISK_LIGHT, DISK_LIGHT,
                    DISK_DARK, DISK_DARK, DISK_DARK, DISK_DARK],
           swap_count = 6\<rparr>) \<and>
   to_string [DISK_LIGHT, DISK_LIGHT, DISK_LIGHT, DISK_LIGHT,
              DISK_DARK, DISK_DARK, DISK_DARK, DISK_DARK] = ''L L L L D D D D''"
  by (intro conjI; code_simp)

text \<open>
  Claim C7 as stated, that sorting again a row that a sorter has produced always fails the
  precondition, fails for one pair: the sorters return the row \<open>L D\<close> as it is, and that
  row is alternating, so the second call succeeds with no swap.
\<close>

theorem second_sort_of_one_pair_succeeds:
  "sort_left_to_right [DISK_LIGHT, DISK_DARK] =
     Inr ([DISK_LIGHT, DISK_DARK], \<lparr>after = [DISK_LIGHT, DISK_DARK], swap_count = 0\<rparr>) \<and>
   sort_left_to_right (after \<lparr>after = [DISK_LIGHT, DISK_DARK], swap_count = 0\<rparr>) =
     Inr ([DISK_LIGHT, DISK_DARK], \<lparr>after = [DISK_LIGHT, DISK_DARK], swap_count = 0\<rparr>) \<and>
   sort_lawnmower (after \<lparr>after = [DISK_LIGHT, DISK_DARK], swap_count = 0\<rparr>) =
     Inr ([DISK_LIGHT, DISK_DARK], \<lparr>after = [DISK_LIGHT, DISK_DARK], swap_count = 0\<rparr>)"
  by (intro conjI; code_simp)

text \<open>
  Claim C7, amended. For every alternating row of at least four disks, the row that either
  sorter produces is refused by both sorters at the precondition assertion
  \<open>assert(before.is_alternating())\<close>: no result is returned, and, the loops not being
  entered, no swap is recorded.
\<close>

theorem second_sort_fails_the_precondition:
  assumes "row_invariant before" "is_alternating before = Inr True" "4 \<le> total_count before"
  shows "\<exists>b1 r1 b2 r2.
           sort_left_to_right before = Inr (b1, r1) \<and>
           sort_lawnmower before = Inr (b2, r2) \<and>
           sort_left_to_right (after r1) = Inl Assert_is_alternating \<and>
           sort_lawnmower (after r1) = Inl Assert_is_alternating \<and>
           sort_left_to_right (after r2) = Inl Assert_is_alternating \<and>
           sort_lawnmower (after r2) = Inl Assert_is_alternating \<and>
           sort_left_to_right_log (after r1) = Inl Assert_is_alternating \<and>
           sort_lawnmower_log (after r1) = Inl Assert_is_alternating \<and>
           sort_left_to_right_log (after r2) = Inl Assert_is_alternating \<and>
           sort_lawnmower_log (after r2) = Inl Assert_is_alternating"
proof -
  let ?k = "total_count before div 2"
  from alternating_row [OF assms(1,2)] have row: "before = ld ?k"
    by simp
  from assms(3) have k: "2 \<le> ?k" and k0: "0 < ?k"
    by simp_all
  note first = sort_left_to_right_ld [OF k0] sort_lawnmower_ld [OF k0]
  note again = sort_left_to_right_grouped [OF k] sort_lawnmower_grouped [OF k]
    sort_left_to_right_log_grouped [OF k] sort_lawnmower_log_grouped [OF k]
  show ?thesis
    by (subst row, subst (2) row) (simp add: first again)
qed

theorem second_sort_fails_the_precondition_witness:
  "row_invariant [DISK_LIGHT, DISK_DARK, DISK_LIGHT, DISK_DARK] \<and>
   is_alternating [DISK_LIGHT, DISK_DARK, DISK_LIGHT, DISK_DARK] = Inr True \<and>
   4 \<le> total_count [DISK_LIGHT, DISK_DARK, DISK_LIGHT, DISK_DARK] \<and>
   (\<exists>b1 r1 b2 r2.
      sort_left_to_right [DISK_LIGHT, DISK_DARK, DISK_LIGHT, DISK_DARK] = Inr (b1, r1) \<and>
      sort_lawnmower [DISK_LIGHT, DISK_DARK, DISK_LIGHT, DISK_DARK] = Inr (b2, r2) \<and>
      sort_left_to_right (after r1) = Inl Assert_is_alternating \<and>
      sort_lawnmower (after r1) = Inl Assert_is_alternating \<and>
      sort_left_to_right (after r2) = Inl Assert_is_alternating \<and>
      sort_lawnmower (after r2) = Inl Assert_is_alternating)"
proof -
  let ?row = "[DISK_LIGHT, DISK_DARK, DISK_LIGHT, DISK_DARK]"
  have inv: "row_invariant ?row"
    by (simp add: row_invariant_def total_count_def)
  have alt: "is_alternating ?row = Inr True"
    by code_simp
  have len: "4 \<le> total_count ?row"
    by (simp add: total_count_def)
  from second_sort_fails_the_precondition [OF inv alt len] inv alt len show ?thesis
    by blast
qed

text \<open>
  Claim C8. While either sorter runs on an alternating row, every swap it performs exchanges
  a dark disk on the left with a light disk on the right: the record of the swaps of the run
  holds the pair \<open>(dark, light)\<close> at every entry, and it has one entry for each swap
  counted.
\<close>

theorem sorters_swap_dark_light_pairs_only:
  assumes "row_invariant before" "is_alternating before = Inr True"
  shows "\<exists>b1 r1 swaps1 b2 r2 swaps2.
           sort_left_to_right_log before = Inr (b1, r1, swaps1) \<and>
           sort_left_to_right before = Inr (b1, r1) \<and>
           swap_count r1 = of_nat (length swaps1) \<and>
           sort_lawnmower_log before = Inr (b2, r2, swaps2) \<and>
           sort_lawnmower before = Inr (b2, r2) \<and>
           swap_count r2 = of_nat (length swaps2) \<and>
           (\<forall>(j, a, b) \<in> set (swaps1 @ swaps2). a = DISK_DARK \<and> b = DISK_LIGHT)"
proof -
  let ?k = "total_count before div 2"
  let ?r = "\<lparr>after = grouped ?k, swap_count = of_nat (tri ?k)\<rparr>"
  from alternating_row [OF assms] have k: "0 < ?k" and row: "before = ld ?k"
    by simp_all
  from sort_left_to_right_log_ld [OF k] obtain swaps1 where
    l1: "sort_left_to_right_log (ld ?k) = Inr (grouped ?k, ?r, swaps1)" by blast
  from sort_lawnmower_log_ld [OF k] obtain swaps2 where
    l2: "sort_lawnmower_log (ld ?k) = Inr (grouped ?k, ?r, swaps2)" by blast
  from sort_left_to_right_log_ok [OF l1] have ok1:
    "dark_light_swaps swaps1" "swap_count ?r = of_nat (length swaps1)" by simp_all
  from sort_lawnmower_log_ok [OF l2] have ok2:
    "dark_light_swaps swaps2" "swap_count ?r = of_nat (length swaps2)" by simp_all
  have all: "\<forall>(j, a, b) \<in> set (swaps1 @ swaps2). a = DISK_DARK \<and> b = DISK_LIGHT"
    using ok1(1) ok2(1) by (auto simp: dark_light_swaps_def list_all_iff)
  have s1: "sort_left_to_right (ld ?k) = Inr (grouped ?k, ?r)"
    using k by (rule sort_left_to_right_ld)
  have s2: "sort_lawnmower (ld ?k) = Inr (grouped ?k, ?r)"
    using k by (rule sort_lawnmower_ld)
  have "sort_left_to_right_log before = Inr (grouped ?k, ?r, swaps1) \<and>
        sort_left_to_right before = Inr (grouped ?k, ?r) \<and>
        swap_count ?r = of_nat (length swaps1) \<and>
        sort_lawnmower_log before = Inr (grouped ?k, ?r, swaps2) \<and>
        sort_lawnmower before = Inr (grouped ?k, ?r) \<and>
        swap_count ?r = of_nat (length swaps2) \<and>
        (\<forall>(j, a, b) \<in> set (swaps1 @ swaps2). a = DISK_DARK \<and> b = DISK_LIGHT)"
    using l1 l2 ok1(2) ok2(2) s1 s2 all row by metis
  then show ?thesis by blast
qed

theorem sorters_swap_dark_light_pairs_only_witness:
  "row_invariant [DISK_LIGHT, DISK_DARK, DISK_LIGHT, DISK_DARK, DISK_LIGHT, DISK_DARK] \<and>
   is_alternating [DISK_LIGHT, DISK_DARK, DISK_LIGHT, DISK_DARK, DISK_LIGHT, DISK_DARK] =
     Inr True \<and>
   (\<exists>b1 r1 swaps1 b2 r2 swaps2.
      sort_left_to_right_log [DISK_LIGHT, DISK_DARK, DISK_LIGHT, DISK_DARK, DISK_LIGHT, DISK_DARK]
        = Inr (b1, r1, swaps1) \<and>
      sort_lawnmower_log [DISK_LIGHT, DISK_DARK, DISK_LIGHT, DISK_DARK, DISK_LIGHT, DISK_DARK]
        = Inr (b2, r2, swaps2) \<and>
      (\<forall>(j, a, b) \<in> set (swaps1 @ swaps2). a = DISK_DARK \<and> b = DISK_LIGHT))"
proof -
  let ?row = "[DISK_LIGHT, DISK_DARK, DISK_LIGHT, DISK_DARK, DISK_LIGHT, DISK_DARK]"
  have inv: "row_invariant ?row"
    by (simp add: row_invariant_def total_count_def)
  have alt: "is_alternating ?row = Inr True"
    by code_simp
  from sorters_swap_dark_light_pairs_only [OF inv alt] inv alt show ?thesis
    by blast
qed

text \<open>
  Claim C9. Both sorters work on the caller's object. When a sorter called with the address
  of an alternating row returns, the object at that address holds the final state, the
  grouped row that the sorter computes from the object's former value; the row stored in the
  result is that same row, and \<open>operator==\<close> holds between the two; every other object
  of the store is as it was.
\<close>

theorem sorters_write_to_the_callers_row:
  assumes "row_invariant (mem before)" "is_alternating (mem before) = Inr True"
  shows "\<exists>mem1 r1 mem2 r2.
           sort_left_to_right_at before mem = Inr (mem1, r1) \<and>
           sort_lawnmower_at before mem = Inr (mem2, r2) \<and>
           mem1 before = grouped (light_count (mem before)) \<and>
           mem2 before = grouped (light_count (mem before)) \<and>
           after r1 = mem1 before \<and>
           after r2 = mem2 before \<and>
           operator_eq (mem1 before) (after r1) = Inr True \<and>
           operator_eq (mem2 before) (after r2) = Inr True \<and>
           (\<forall>a. a \<noteq> before \<longrightarrow> mem1 a = mem a \<and> mem2 a = mem a) \<and>
           sort_left_to_right (mem before) = Inr (mem1 before, r1) \<and>
           sort_lawnmower (mem before) = Inr (mem2 before, r2)"
proof -
  let ?k = "total_count (mem before) div 2"
  let ?g = "grouped ?k"
  let ?r = "\<lparr>after = ?g, swap_count = of_nat (tri ?k)\<rparr>"
  let ?mem' = "mem(before := ?g)"
  from alternating_row [OF assms] have k: "0 < ?k" and row: "mem before = ld ?k"
    by simp_all
  have lc: "light_count (mem before) = ?k"
    by (simp add: light_count_def dark_count_def)
  have "sort_left_to_right (ld ?k) = Inr (?g, ?r)"
    using k by (rule sort_left_to_right_ld)
  with row have s1: "sort_left_to_right (mem before) = Inr (?g, ?r)"
    by simp
  have "sort_lawnmower (ld ?k) = Inr (?g, ?r)"
    using k by (rule sort_lawnmower_ld)
  with row have s2: "sort_lawnmower (mem before) = Inr (?g, ?r)"
    by simp
  have a1: "sort_left_to_right_at before mem = Inr (?mem', ?r)"
    using s1 by (simp add: sort_left_to_right_at_object)
  have a2: "sort_lawnmower_at before mem = Inr (?mem', ?r)"
    using s2 by (simp add: sort_lawnmower_at_object)
  have eq: "operator_eq ?g ?g = Inr True"
    by (simp add: operator_eq_def std_equal_refl)
  have "sort_left_to_right_at before mem = Inr (?mem', ?r) \<and>
        sort_lawnmower_at before mem = Inr (?mem', ?r) \<and>
        ?mem' before = grouped (light_count (mem before)) \<and>
        ?mem' before = grouped (light_count (mem before)) \<and>
        after ?r = ?mem' before \<and>
        after ?r = ?mem' before \<and>
        operator_eq (?mem' before) (after ?r) = Inr True \<and>
        operator_eq (?mem' before) (after ?r) = Inr True \<and>
        (\<forall>a. a \<noteq> before \<longrightarrow> ?mem' a = mem a \<and> ?mem' a = mem a) \<and>
        sort_left_to_right (mem before) = Inr (?mem' before, ?r) \<and>
        sort_lawnmower (mem before) = Inr (?mem' before, ?r)"
    using a1 a2 s1 s2 eq lc by simp
  then show ?thesis by blast
qed

theorem sorters_write_to_the_callers_row_witness:
  "row_invariant (((\<lambda>a :: address. [DISK_LIGHT, DISK_DARK])
      (0 := [DISK_LIGHT, DISK_DARK, DISK_LIGHT, DISK_DARK])) 0) \<and>
   is_alternating (((\<lambda>a :: address. [DISK_LIGHT, DISK_DARK])
      (0 := [DISK_LIGHT, DISK_DARK, DISK_LIGHT, DISK_DARK])) 0) = Inr True \<and>
   (\<exists>mem1 r1 mem2 r2.
      sort_left_to_right_at 0 ((\<lambda>a :: address. [DISK_LIGHT, DISK_DARK])
          (0 := [DISK_LIGHT, DISK_DARK, DISK_LIGHT, DISK_DARK])) = Inr (mem1, r1) \<and>
      sort_lawnmower_at 0 ((\<lambda>a :: address. [DISK_LIGHT, DISK_DARK])
          (0 := [DISK_LIGHT, DISK_DARK, DISK_LIGHT, DISK_DARK])) = Inr (mem2, r2) \<and>
      mem1 0 = [DISK_LIGHT, DISK_LIGHT, DISK_DARK, DISK_DARK] \<and>
      mem2 0 = [DISK_LIGHT, DISK_LIGHT, DISK_DARK, DISK_DARK] \<and>
      after r1 = [DISK_LIGHT, DISK_LIGHT, DISK_DARK, DISK_DARK] \<and>
      after r2 = [DISK_LIGHT, DISK_LIGHT, DISK_DARK, DISK_DARK] \<and>
      mem1 1 = [DISK_LIGHT, DISK_DARK] \<and>
      mem2 1 = [DISK_LIGHT, DISK_DARK])"
proof -
  let ?row = "[DISK_LIGHT, DISK_DARK, DISK_LIGHT, DISK_DARK]"
  let ?mem = "(\<lambda>a :: address. [DISK_LIGHT, DISK_DARK])(0 := ?row)"
  have at: "?mem 0 = ?row"
    by simp
  have inv: "row_invariant (?mem 0)"
    by (simp add: row_invariant_def total_count_def)
  have alt: "is_alternating (?mem 0) = Inr True"
    unfolding at by code_simp
  have g: "grouped (light_count (?mem 0)) = [DISK_LIGHT, DISK_LIGHT, DISK_DARK, DISK_DARK]"
    unfolding at by code_simp
  from sorters_write_to_the_callers_row [where mem = ?mem and before = 0, OF inv alt] obtain mem1 r1 mem2 r2 where
    run: "sort_left_to_right_at 0 ?mem = Inr (mem1, r1)"
         "sort_lawnmower_at 0 ?mem = Inr (mem2, r2)"
    and obj: "mem1 0 = grouped (light_count (?mem 0))" "mem2 0 = grouped (light_count (?mem 0))"
    and res: "after r1 = mem1 0" "after r2 = mem2 0"
    and frame: "\<forall>a. a \<noteq> 0 \<longrightarrow> mem1 a = ?mem a \<and> mem2 a = ?mem a"
    by blast
  from frame have others: "mem1 1 = [DISK_LIGHT, DISK_DARK]" "mem2 1 = [DISK_LIGHT, DISK_DARK]"
    by simp_all
  from run obj res others inv alt show ?thesis
    unfolding g by simp
qed

text \<open>
  Claim C10. \<open>light_count()\<close> and \<open>dark_count()\<close> are both \<open>total_count() / 2\<close>,
  whatever colours the row holds: two rows of the same length have the same counts, and a
  swap changes neither.
\<close>

theorem counts_come_from_the_length:
  "light_count cs = total_count cs div 2 \<and>
   dark_count cs = total_count cs div 2 \<and>
   (total_count cs' = total_count cs \<longrightarrow>
      light_count cs' = light_count cs \<and> dark_count cs' = dark_count cs) \<and>
   (swap cs i = Inr cs'' \<longrightarrow>
      light_count cs'' = light_count cs \<and> dark_count cs'' = dark_count cs)"
  by (auto simp: light_count_def dark_count_def total_count_def dest: swap_length)

theorem counts_come_from_the_length_witness:
  "total_count [DISK_DARK, DISK_DARK, DISK_DARK, DISK_LIGHT] =
     total_count [DISK_LIGHT, DISK_DARK, DISK_LIGHT, DISK_DARK] \<and>
   swap [DISK_LIGHT, DISK_DARK, DISK_LIGHT, DISK_DARK] 1 =
     Inr [DISK_LIGHT, DISK_LIGHT, DISK_DARK, DISK_DARK] \<and>
   light_count [DISK_DARK, DISK_DARK, DISK_DARK, DISK_LIGHT] = 2 \<and>
   dark_count [DISK_DARK, DISK_DARK, DISK_DARK, DISK_LIGHT] = 2 \<and>
   light_count [DISK_LIGHT, DISK_LIGHT, DISK_DARK, DISK_DARK] = 2 \<and>
   dark_count [DISK_LIGHT, DISK_LIGHT, DISK_DARK, DISK_DARK] = 2"
proof -
  let ?cs = "[DISK_LIGHT, DISK_DARK, DISK_LIGHT, DISK_DARK]"
  let ?cs' = "[DISK_DARK, DISK_DARK, DISK_DARK, DISK_LIGHT]"
  let ?cs'' = "[DISK_LIGHT, DISK_LIGHT, DISK_DARK, DISK_DARK]"
  have len: "total_count ?cs' = total_count ?cs"
    by (simp add: total_count_def)
  have sw: "swap ?cs 1 = Inr ?cs''"
    by (simp add: swap_def is_index_def total_count_def)
  have l: "light_count ?cs = 2"
    by (simp add: light_count_def dark_count_def total_count_def)
  from counts_come_from_the_length [of ?cs ?cs' 1 ?cs''] len sw l show ?thesis
    by simp
qed

end
